theory Spec2Isabelle
  imports Main "HOL-Library.Multiset" "HOL-Library.Char_ord" "HOL-Library.List_Lexorder"
begin

section \<open>Government books management and distribution\<close>

text \<open>
  A shallow embedding of the C++ program: the stock ledger \<open>BookInventory\<close>, the
  requests and holdings of an \<open>Institution\<close>, the loans of \<open>LoanManagement\<close>, the
  \<open>WaitingList\<close>, the three distribution strategies and the facade
  \<open>GovernmentBooksManagementSystem\<close>.

  Conventions of the embedding.
  \<^item> A C++ \<open>int\<close> is a 32-bit two's complement number, modelled by an \<open>int\<close>.
    Where the program stores a sum or a product that can leave the range from
    \<open>INT_MIN\<close> to \<open>INT_MAX\<close> on inputs it accepts (the quantity in stock, the holdings
    of an institution, the total need and the product of the proportional formula),
    the model wraps the result around with \<open>wrap_int\<close>, as the compiled program does
    (the C++ standard leaves signed overflow undefined). Statements about such a result
    carry the range as a hypothesis.
  \<^item> Mutation is explicit state passing. Every method runs under its object's mutex, so
    a method is one atomic step; the model is sequential.
  \<^item> A thrown exception is the \<open>Inl\<close> branch of a sum; the object is unchanged then.
  \<^item> Logger and console output are left out, and so are the time stamps that no
    operation ever reads back (transaction, request, issue, due and return dates) and
    the price of a book (a \<open>double\<close>). The one time stamp that decides behaviour, the one
    inside a loan id, is kept: see \<open>issueBookLoan\<close>.
  \<^item> A \<open>shared_ptr\<close> to an \<open>Institution\<close> is its position in the vector given to a
    strategy, a \<open>shared_ptr\<close> to a \<open>BookRequest\<close> is its position in the request vector
    of its institution. The facade creates every request afresh for one institution, so
    no two positions alias.
\<close>

subsection \<open>Enumerations and exceptions\<close>

datatype BookCategory =
  TEXTBOOK | REFERENCE | LITERATURE | SCIENCE | HISTORY | MATHEMATICS | LANGUAGE | VOCATIONAL

datatype Priority = LOW | MEDIUM | HIGH | CRITICAL

datatype RequestStatus = PENDING | APPROVED | PARTIALLY_FULFILLED | FULFILLED | REJECTED

datatype error = InvalidInputException string | NotFoundException string

text \<open>\<open>static_cast<int>(priority)\<close>: the enumerators are numbered from 1.\<close>

fun priority_int :: "Priority \<Rightarrow> int" where
  "priority_int LOW = 1"
| "priority_int MEDIUM = 2"
| "priority_int HIGH = 3"
| "priority_int CRITICAL = 4"

subsection \<open>Machine integers\<close>

definition INT_MAX :: int where
  "INT_MAX = 2147483647"

definition INT_MIN :: int where
  "INT_MIN = - 2147483648"

text \<open>The 32-bit two's complement number that a result \<open>x\<close> is stored as.\<close>

definition wrap_int :: "int \<Rightarrow> int" where
  "wrap_int x = (x + 2147483648) mod 4294967296 - 2147483648"

subsection \<open>Validator\<close>

definition isdigit :: "char \<Rightarrow> bool" where
  "isdigit c \<longleftrightarrow> c \<in> set ''0123456789''"

definition isValidISBN :: "string \<Rightarrow> bool" where
  "isValidISBN isbn =
     (let cleaned = filter (\<lambda>c. c \<noteq> CHR ''-'') isbn
      in (length cleaned = 10 \<or> length cleaned = 13) \<and> list_all isdigit cleaned)"

definition isValidQuantity :: "int \<Rightarrow> bool" where
  "isValidQuantity qty \<longleftrightarrow> qty > 0 \<and> qty < 1000000"

definition isValidYear :: "int \<Rightarrow> bool" where
  "isValidYear year \<longleftrightarrow> year \<ge> 1900 \<and> year \<le> 2100"

subsection \<open>Book\<close>

record Book =
  book_isbn :: string
  title :: string
  author :: string
  category :: BookCategory
  publicationYear :: int
  publisher :: string

text \<open>The constructor of \<open>Book\<close> throws on a malformed ISBN or year.\<close>

definition Book_new ::
  "string \<Rightarrow> string \<Rightarrow> string \<Rightarrow> BookCategory \<Rightarrow> int \<Rightarrow> string \<Rightarrow> error + Book" where
  "Book_new isbn ttl auth cat year pub =
     (if \<not> isValidISBN isbn then Inl (InvalidInputException ''Invalid ISBN format'')
      else if \<not> isValidYear year then Inl (InvalidInputException ''Invalid publication year'')
      else Inr \<lparr>book_isbn = isbn, title = ttl, author = auth, category = cat,
                publicationYear = year, publisher = pub\<rparr>)"

subsection \<open>BookInventory\<close>

record Transaction =
  tx_isbn :: string
  tx_quantity :: int
  tx_type :: string

text \<open>
  \<open>stock\<close> is the \<open>unordered_map\<close> from ISBN to (book, quantity); a key is never erased.
\<close>

record BookInventory =
  stock :: "string \<rightharpoonup> Book \<times> int"
  categoryIndex :: "BookCategory \<Rightarrow> string set"
  transactionLog :: "Transaction list"

definition empty_inventory :: BookInventory where
  "empty_inventory = \<lparr>stock = Map.empty, categoryIndex = (\<lambda>_. {}), transactionLog = []\<rparr>"

definition addBook :: "Book \<Rightarrow> int \<Rightarrow> BookInventory \<Rightarrow> error + BookInventory" where
  "addBook book quantity iv =
     (if \<not> isValidQuantity quantity then Inl (InvalidInputException ''Invalid quantity'')
      else
        let isbn = book_isbn book;
            iv1 = (case stock iv isbn of
                      Some (b, n) \<Rightarrow>
                        iv\<lparr>stock := (stock iv)(isbn \<mapsto> (b, wrap_int (n + quantity)))\<rparr>
                    | None \<Rightarrow>
                        iv\<lparr>stock := (stock iv)(isbn \<mapsto> (book, quantity)),
                            categoryIndex := (categoryIndex iv)
                              (category book := insert isbn (categoryIndex iv (category book)))\<rparr>)
        in Inr (iv1\<lparr>transactionLog := transactionLog iv1 @
                  [\<lparr>tx_isbn = isbn, tx_quantity = quantity, tx_type = ''ADD''\<rparr>]\<rparr>))"

text \<open>\<open>allocateBooks\<close> returns its \<open>bool\<close> together with the inventory it leaves.\<close>

definition allocateBooks :: "string \<Rightarrow> int \<Rightarrow> BookInventory \<Rightarrow> bool \<times> BookInventory" where
  "allocateBooks isbn quantity iv =
     (if \<not> isValidQuantity quantity then (False, iv)
      else case stock iv isbn of
             None \<Rightarrow> (False, iv)
           | Some (b, n) \<Rightarrow>
               if n < quantity then (False, iv)
               else (True,
                     iv\<lparr>stock := (stock iv)(isbn \<mapsto> (b, n - quantity)),
                         transactionLog := transactionLog iv @
                           [\<lparr>tx_isbn = isbn, tx_quantity = quantity, tx_type = ''ALLOCATE''\<rparr>]\<rparr>))"

text \<open>\<open>BookInventory::returnBooks\<close>.\<close>

definition inventory_returnBooks :: "string \<Rightarrow> int \<Rightarrow> BookInventory \<Rightarrow> BookInventory" where
  "inventory_returnBooks isbn quantity iv =
     (case stock iv isbn of
        Some (b, n) \<Rightarrow>
          iv\<lparr>stock := (stock iv)(isbn \<mapsto> (b, wrap_int (n + quantity))),
              transactionLog := transactionLog iv @
                [\<lparr>tx_isbn = isbn, tx_quantity = quantity, tx_type = ''RETURN''\<rparr>]\<rparr>
      | None \<Rightarrow> iv)"

definition getAvailableQuantity :: "BookInventory \<Rightarrow> string \<Rightarrow> int" where
  "getAvailableQuantity iv isbn = (case stock iv isbn of Some (b, n) \<Rightarrow> n | None \<Rightarrow> 0)"

text \<open>\<open>getBook\<close> returns \<open>nullptr\<close> for an unknown ISBN: \<open>None\<close>.\<close>

definition getBook :: "BookInventory \<Rightarrow> string \<Rightarrow> Book option" where
  "getBook iv isbn = (case stock iv isbn of Some (b, n) \<Rightarrow> Some b | None \<Rightarrow> None)"

text \<open>
  The older \<open>final.cpp\<close> guards \<open>allocateBooks\<close> with \<open>quantity <= 0\<close> only; the rest of
  the method is the same.
\<close>

definition allocateBooks_final :: "string \<Rightarrow> int \<Rightarrow> BookInventory \<Rightarrow> bool \<times> BookInventory" where
  "allocateBooks_final isbn quantity iv =
     (if quantity \<le> 0 then (False, iv)
      else case stock iv isbn of
             None \<Rightarrow> (False, iv)
           | Some (b, n) \<Rightarrow>
               if n < quantity then (False, iv)
               else (True,
                     iv\<lparr>stock := (stock iv)(isbn \<mapsto> (b, n - quantity)),
                         transactionLog := transactionLog iv @
                           [\<lparr>tx_isbn = isbn, tx_quantity = quantity, tx_type = ''ALLOCATE''\<rparr>]\<rparr>))"

subsection \<open>BookRequest\<close>

record BookRequest =
  requestId :: string
  req_isbn :: string
  quantityRequested :: int
  quantityFulfilled :: int
  priority :: Priority
  status :: RequestStatus

definition BookRequest_new :: "string \<Rightarrow> string \<Rightarrow> int \<Rightarrow> Priority \<Rightarrow> BookRequest" where
  "BookRequest_new reqId isbn qty prio =
     \<lparr>requestId = reqId, req_isbn = isbn, quantityRequested = qty, quantityFulfilled = 0,
      priority = prio, status = PENDING\<rparr>"

definition getRemainingQuantity :: "BookRequest \<Rightarrow> int" where
  "getRemainingQuantity r = quantityRequested r - quantityFulfilled r"

definition fulfillPartial :: "int \<Rightarrow> BookRequest \<Rightarrow> BookRequest" where
  "fulfillPartial qty r =
     (let r1 = r\<lparr>quantityFulfilled := quantityFulfilled r + qty\<rparr>
      in if quantityFulfilled r1 \<ge> quantityRequested r1 then r1\<lparr>status := FULFILLED\<rparr>
         else if quantityFulfilled r1 > 0 then r1\<lparr>status := PARTIALLY_FULFILLED\<rparr>
         else r1)"

subsection \<open>BookLoan and LoanManagement\<close>

record BookLoan =
  loanId :: string
  loan_isbn :: string
  loan_institutionId :: string
  loan_quantity :: int
  isReturned :: bool

definition markReturned :: "BookLoan \<Rightarrow> BookLoan" where
  "markReturned l = l\<lparr>isReturned := True\<rparr>"

text \<open>\<open>std::to_string\<close> of a \<open>time_t\<close>: the decimal digits, with a sign.\<close>

definition digit_char :: "nat \<Rightarrow> char" where
  "digit_char d = ''0123456789'' ! d"

fun to_string_nat :: "nat \<Rightarrow> string" where
  "to_string_nat n =
     (if n < 10 then [digit_char n] else to_string_nat (n div 10) @ [digit_char (n mod 10)])"

definition to_string :: "int \<Rightarrow> string" where
  "to_string k = (if k < 0 then CHR ''-'' # to_string_nat (nat (- k)) else to_string_nat (nat k))"

text \<open>
  \<open>LoanManagement\<close> is its vector of loans. A loan id is made of the institution id and
  of \<open>time(nullptr)\<close>, read when the loan is issued: \<open>clk n\<close> is the reading taken for the
  loan that becomes element \<open>n\<close> of the vector. Any clock is allowed; two loans issued to
  one institution within one second get the same id.
\<close>

type_synonym clock = "nat \<Rightarrow> int"

definition issueBookLoan :: "clock \<Rightarrow> string \<Rightarrow> string \<Rightarrow> int \<Rightarrow> BookLoan list \<Rightarrow> BookLoan list" where
  "issueBookLoan clk isbn instId quantity loans =
     loans @ [\<lparr>loanId = ''LOAN-'' @ instId @ ''-'' @ to_string (clk (length loans)),
               loan_isbn = isbn, loan_institutionId = instId, loan_quantity = quantity,
               isReturned = False\<rparr>]"

definition getLoansByInstitution :: "string \<Rightarrow> BookLoan list \<Rightarrow> BookLoan list" where
  "getLoansByInstitution instId loans = filter (\<lambda>l. loan_institutionId l = instId) loans"

text \<open>\<open>LoanManagement::returnBooks\<close>: the first loan with this id that is not yet
  returned is marked; the result says whether there was one.\<close>

fun loans_returnBooks :: "string \<Rightarrow> BookLoan list \<Rightarrow> bool \<times> BookLoan list" where
  "loans_returnBooks lid [] = (False, [])"
| "loans_returnBooks lid (l # ls) =
     (if loanId l = lid \<and> \<not> isReturned l then (True, markReturned l # ls)
      else (case loans_returnBooks lid ls of (ok, ls') \<Rightarrow> (ok, l # ls')))"

subsection \<open>WaitingList\<close>

record WaitingEntry =
  we_institutionId :: string
  we_isbn :: string
  we_quantity :: int
  we_priority :: Priority

text \<open>The \<open>std::map\<close> from ISBN to a queue of entries.\<close>

type_synonym WaitingList = "string \<rightharpoonup> WaitingEntry list"

definition addToWaitingList ::
  "string \<Rightarrow> string \<Rightarrow> int \<Rightarrow> Priority \<Rightarrow> WaitingList \<Rightarrow> WaitingList" where
  "addToWaitingList isbn instId quantity prio wl =
     wl(isbn \<mapsto> (case wl isbn of None \<Rightarrow> [] | Some q \<Rightarrow> q) @
         [\<lparr>we_institutionId = instId, we_isbn = isbn, we_quantity = quantity,
           we_priority = prio\<rparr>])"

definition hasWaitingInstitutions :: "WaitingList \<Rightarrow> string \<Rightarrow> bool" where
  "hasWaitingInstitutions wl isbn = (case wl isbn of None \<Rightarrow> False | Some q \<Rightarrow> q \<noteq> [])"

definition getWaitingCount :: "WaitingList \<Rightarrow> string \<Rightarrow> nat" where
  "getWaitingCount wl isbn = (case wl isbn of None \<Rightarrow> 0 | Some q \<Rightarrow> length q)"

subsection \<open>Institution\<close>

datatype InstitutionType =
  PRIMARY_SCHOOL | SECONDARY_SCHOOL | HIGH_SCHOOL | COLLEGE | UNIVERSITY | LIBRARY
  | RESEARCH_CENTER

record Institution =
  institutionId :: string
  inst_name :: string
  inst_type :: InstitutionType
  location :: string
  studentCount :: int
  currentBooks :: "string \<rightharpoonup> int"
  requests :: "BookRequest list"

definition Institution_new ::
  "string \<Rightarrow> string \<Rightarrow> InstitutionType \<Rightarrow> string \<Rightarrow> int \<Rightarrow> Institution" where
  "Institution_new ident nm ty loc students =
     \<lparr>institutionId = ident, inst_name = nm, inst_type = ty, location = loc,
      studentCount = students, currentBooks = Map.empty, requests = []\<rparr>"

definition addRequest :: "BookRequest \<Rightarrow> Institution \<Rightarrow> Institution" where
  "addRequest req inst = inst\<lparr>requests := requests inst @ [req]\<rparr>"

definition is_pending :: "BookRequest \<Rightarrow> bool" where
  "is_pending r \<longleftrightarrow> status r = PENDING \<or> status r = PARTIALLY_FULFILLED"

text \<open>\<open>getPendingRequests\<close> returns pointers to the pending requests, in the order of
  the vector: here their positions.\<close>

definition getPendingRequests :: "Institution \<Rightarrow> nat list" where
  "getPendingRequests inst =
     filter (\<lambda>j. is_pending (requests inst ! j)) [0..<length (requests inst)]"

definition receiveBooks :: "string \<Rightarrow> int \<Rightarrow> Institution \<Rightarrow> Institution" where
  "receiveBooks isbn quantity inst =
     inst\<lparr>currentBooks := (currentBooks inst)
       (isbn \<mapsto>
          wrap_int ((case currentBooks inst isbn of None \<Rightarrow> 0 | Some n \<Rightarrow> n) + quantity))\<rparr>"

definition getCurrentStock :: "Institution \<Rightarrow> string \<Rightarrow> int" where
  "getCurrentStock inst isbn = (case currentBooks inst isbn of None \<Rightarrow> 0 | Some n \<Rightarrow> n)"

subsection \<open>Distribution strategies\<close>

text \<open>
  A strategy works on the inventory, the vector of institutions and the loan manager.
  \<open>request_at insts i j\<close> is request \<open>j\<close> of institution \<open>i\<close>.
\<close>

type_synonym world = "BookInventory \<times> Institution list \<times> BookLoan list"

definition request_at :: "Institution list \<Rightarrow> nat \<Rightarrow> nat \<Rightarrow> BookRequest" where
  "request_at insts i j = requests (insts ! i) ! j"

text \<open>
  The block all three strategies share,
  \<^verbatim>\<open>if (inventory.allocateBooks(isbn, allocate)) {
      inst->receiveBooks(isbn, allocate);
      req->fulfillPartial(allocate);
      loanMgr.issueBookLoan(isbn, inst->getId(), allocate); }\<close>
  for institution \<open>i\<close> and its request \<open>j\<close>.
\<close>

definition deliver :: "string \<Rightarrow> nat \<Rightarrow> int \<Rightarrow> Institution \<Rightarrow> Institution" where
  "deliver isbn j allocate inst =
     (let inst1 = receiveBooks isbn allocate inst
      in inst1\<lparr>requests :=
           (requests inst1)[j := fulfillPartial allocate (requests inst1 ! j)]\<rparr>)"

definition allocate_and_issue :: "clock \<Rightarrow> string \<Rightarrow> nat \<Rightarrow> nat \<Rightarrow> int \<Rightarrow> world \<Rightarrow> world" where
  "allocate_and_issue clk isbn i j allocate w =
     (case w of (iv, insts, loans) \<Rightarrow>
        (case allocateBooks isbn allocate iv of (ok, iv') \<Rightarrow>
           if ok then
             (iv', insts[i := deliver isbn j allocate (insts ! i)],
              issueBookLoan clk isbn (institutionId (insts ! i)) allocate loans)
           else (iv', insts, loans)))"

text \<open>
  The tuples a strategy collects: (institution, request, remaining quantity read at
  collection time), institutions in vector order, the pending requests of each in
  order.
\<close>

type_synonym item = "nat \<times> nat \<times> int"

definition pending_items :: "Institution list \<Rightarrow> item list" where
  "pending_items insts =
     concat (map (\<lambda>i. map (\<lambda>j. (i, j, getRemainingQuantity (request_at insts i j)))
                          (getPendingRequests (insts ! i)))
                 [0..<length insts])"

text \<open>
  PriorityBasedDistribution. The comparison of the priority queue reads the priority of
  the request of each tuple; no strategy changes a priority.

  \<open>std::priority_queue\<close> is library code: all tuples are pushed, then the queue is
  emptied by \<open>top\<close>/\<open>pop\<close>, so it hands the tuples out in some order in which no tuple
  comes before one that compares greater. Which order, among tuples of equal
  priority, is the library's choice: the pop order is a parameter \<open>pq\<close> of the model,
  from the comparison and the pushed tuples to the popped sequence, and
  \<open>pop_order_ok\<close> says what the library guarantees for it.
\<close>

type_synonym pop_order = "(item \<Rightarrow> item \<Rightarrow> bool) \<Rightarrow> item list \<Rightarrow> item list"

definition pop_order_ok :: "(item \<Rightarrow> item \<Rightarrow> bool) \<Rightarrow> item list \<Rightarrow> item list \<Rightarrow> bool" where
  "pop_order_ok lt pushed popped \<longleftrightarrow>
     mset popped = mset pushed \<and> sorted_wrt (\<lambda>a b. \<not> lt a b) popped"

text \<open>One such order: among equal priorities, first pushed is first popped.\<close>

fun pq_insert :: "(item \<Rightarrow> item \<Rightarrow> bool) \<Rightarrow> item \<Rightarrow> item list \<Rightarrow> item list" where
  "pq_insert lt e [] = [e]"
| "pq_insert lt e (x # xs) = (if lt x e then e # x # xs else x # pq_insert lt e xs)"

definition first_come_order :: pop_order where
  "first_come_order lt pushed = foldl (\<lambda>q e. pq_insert lt e q) [] pushed"

definition priority_cmp :: "Institution list \<Rightarrow> item \<Rightarrow> item \<Rightarrow> bool" where
  "priority_cmp insts a b \<longleftrightarrow>
     priority_int (priority (request_at insts (fst a) (fst (snd a))))
       < priority_int (priority (request_at insts (fst b) (fst (snd b))))"

definition pq_ok :: "pop_order \<Rightarrow> bool" where
  "pq_ok pq \<longleftrightarrow>
     (\<forall>insts pushed. pop_order_ok (priority_cmp insts) pushed (pq (priority_cmp insts) pushed))"

text \<open>The body of the \<open>while (!pq.empty())\<close> loop, for one popped tuple.\<close>

definition priority_serve :: "clock \<Rightarrow> world \<Rightarrow> item \<Rightarrow> world" where
  "priority_serve clk w e =
     (case w of (iv, insts, loans) \<Rightarrow>
        (case e of (i, j, needed) \<Rightarrow>
           let isbn = req_isbn (request_at insts i j);
               available = getAvailableQuantity iv isbn
           in if available \<le> 0 then w
              else allocate_and_issue clk isbn i j (min needed available) w))"

definition PriorityBased_distribute :: "pop_order \<Rightarrow> clock \<Rightarrow> world \<Rightarrow> world" where
  "PriorityBased_distribute pq clk w =
     (case w of (iv, insts, loans) \<Rightarrow>
        foldl (priority_serve clk) w (pq (priority_cmp insts) (pending_items insts)))"

text \<open>
  NeedBasedDistribution. \<open>needMap\<close> is a \<open>std::map\<close> from ISBN to a vector of tuples: an
  association list kept sorted by key, keys compared as strings; \<open>map_push\<close> is
  \<open>m[k].push_back(x)\<close>.
\<close>

fun map_push :: "string \<Rightarrow> 'a \<Rightarrow> (string \<times> 'a list) list \<Rightarrow> (string \<times> 'a list) list" where
  "map_push k x [] = [(k, [x])]"
| "map_push k x ((k', xs) # m) =
     (if k = k' then (k', xs @ [x]) # m
      else if k < k' then (k, [x]) # (k', xs) # m
      else (k', xs) # map_push k x m)"

definition needMap :: "Institution list \<Rightarrow> (string \<times> item list) list" where
  "needMap insts =
     foldl (\<lambda>m e. case e of (i, j, need) \<Rightarrow>
              if need > 0 then map_push (req_isbn (request_at insts i j)) (i, j, need) m else m)
       [] (pending_items insts)"

text \<open>Division of C++ \<open>int\<close>s truncates towards zero.\<close>

definition c_div :: "int \<Rightarrow> int \<Rightarrow> int" where
  "c_div a b = sgn a * sgn b * (\<bar>a\<bar> div \<bar>b\<bar>)"

definition need_serve :: "clock \<Rightarrow> string \<Rightarrow> int \<Rightarrow> int \<Rightarrow> world \<Rightarrow> item \<Rightarrow> world" where
  "need_serve clk isbn available totalNeed w e =
     (case e of (i, j, need) \<Rightarrow>
        let allocate = (if totalNeed > 0 then min need (c_div (wrap_int (available * need)) totalNeed) else 0)
        in if allocate > 0 then allocate_and_issue clk isbn i j allocate w else w)"

definition need_group :: "clock \<Rightarrow> world \<Rightarrow> string \<times> item list \<Rightarrow> world" where
  "need_group clk w g =
     (case w of (iv, insts, loans) \<Rightarrow>
        (case g of (isbn, needs) \<Rightarrow>
           let available = getAvailableQuantity iv isbn
           in if available \<le> 0 then w
              else
                let totalNeed = foldl (\<lambda>sum t. wrap_int (sum + snd (snd t))) 0 needs
                in foldl (need_serve clk isbn available totalNeed) w needs))"

definition NeedBased_distribute :: "clock \<Rightarrow> world \<Rightarrow> world" where
  "NeedBased_distribute clk w =
     (case w of (iv, insts, loans) \<Rightarrow> foldl (need_group clk) w (needMap insts))"

text \<open>
  EqualDistribution. \<open>needingMap\<close> holds (institution, request) pairs; the remaining
  quantity is read again when the pair is served. \<open>available / needList.size()\<close> divides
  a positive \<open>int\<close> by a \<open>size_t\<close>: the quotient of the two numbers.
\<close>

definition needingMap :: "Institution list \<Rightarrow> (string \<times> (nat \<times> nat) list) list" where
  "needingMap insts =
     foldl (\<lambda>m e. case e of (i, j, need) \<Rightarrow>
              if need > 0 then map_push (req_isbn (request_at insts i j)) (i, j) m else m)
       [] (pending_items insts)"

definition equal_serve :: "clock \<Rightarrow> string \<Rightarrow> int \<Rightarrow> world \<Rightarrow> nat \<times> nat \<Rightarrow> world" where
  "equal_serve clk isbn perInst w e =
     (case w of (iv, insts, loans) \<Rightarrow>
        (case e of (i, j) \<Rightarrow>
           let allocate = min perInst (getRemainingQuantity (request_at insts i j))
           in if allocate > 0 then allocate_and_issue clk isbn i j allocate w else w))"

definition equal_group :: "clock \<Rightarrow> world \<Rightarrow> string \<times> (nat \<times> nat) list \<Rightarrow> world" where
  "equal_group clk w g =
     (case w of (iv, insts, loans) \<Rightarrow>
        (case g of (isbn, needList) \<Rightarrow>
           let available = getAvailableQuantity iv isbn
           in if available \<le> 0 \<or> needList = [] then w
              else
                let perInst = available div int (length needList)
                in if perInst \<le> 0 then w
                   else foldl (equal_serve clk isbn perInst) w needList))"

definition EqualDistribution_distribute :: "clock \<Rightarrow> world \<Rightarrow> world" where
  "EqualDistribution_distribute clk w =
     (case w of (iv, insts, loans) \<Rightarrow> foldl (equal_group clk) w (needingMap insts))"

datatype Strategy = PriorityBased | NeedBased | Equal

fun distribute :: "Strategy \<Rightarrow> pop_order \<Rightarrow> clock \<Rightarrow> world \<Rightarrow> world" where
  "distribute PriorityBased pq clk w = PriorityBased_distribute pq clk w"
| "distribute NeedBased pq clk w = NeedBased_distribute clk w"
| "distribute Equal pq clk w = EqualDistribution_distribute clk w"

subsection \<open>GovernmentBooksManagementSystem\<close>

text \<open>
  \<open>institutions\<close> is an \<open>unordered_map\<close> keyed by institution id; the list is the map in
  the order its iteration visits it. Where a new key lands in that order is the
  library's choice: the model appends it. Users and login only fill a field
  of a request that nothing reads and are left out.
\<close>

record System =
  centralInventory :: BookInventory
  institutions :: "Institution list"
  distributionStrategy :: Strategy
  loanManager :: "BookLoan list"
  waitingList :: WaitingList

definition System_new :: "Strategy \<Rightarrow> System" where
  "System_new strategy =
     \<lparr>centralInventory = empty_inventory, institutions = [], distributionStrategy = strategy,
      loanManager = [], waitingList = Map.empty\<rparr>"

definition addBookToInventory :: "Book \<Rightarrow> int \<Rightarrow> System \<Rightarrow> error + System" where
  "addBookToInventory book quantity sys =
     (case addBook book quantity (centralInventory sys) of
        Inl e \<Rightarrow> Inl e
      | Inr iv \<Rightarrow> Inr (sys\<lparr>centralInventory := iv\<rparr>))"

definition getInstitution :: "System \<Rightarrow> string \<Rightarrow> Institution option" where
  "getInstitution sys ident = find (\<lambda>x. institutionId x = ident) (institutions sys)"

fun put_institution :: "Institution \<Rightarrow> Institution list \<Rightarrow> Institution list" where
  "put_institution inst [] = [inst]"
| "put_institution inst (x # xs) =
     (if institutionId x = institutionId inst then inst # xs else x # put_institution inst xs)"

definition registerInstitution :: "Institution \<Rightarrow> System \<Rightarrow> System" where
  "registerInstitution inst sys = sys\<lparr>institutions := put_institution inst (institutions sys)\<rparr>"

text \<open>\<open>now\<close> is the reading of \<open>time(nullptr)\<close> that goes into the request id.\<close>

definition submitBookRequest ::
  "int \<Rightarrow> string \<Rightarrow> string \<Rightarrow> int \<Rightarrow> Priority \<Rightarrow> System \<Rightarrow> error + System" where
  "submitBookRequest now instId isbn quantity prio sys =
     (case getInstitution sys instId of
        None \<Rightarrow> Inl (NotFoundException (''Institution: '' @ instId))
      | Some inst \<Rightarrow>
          (case getBook (centralInventory sys) isbn of
             None \<Rightarrow> Inl (NotFoundException (''Book ISBN: '' @ isbn))
           | Some book \<Rightarrow>
               let reqId = ''REQ-'' @ instId @ ''-'' @ to_string now;
                   request = BookRequest_new reqId isbn quantity prio;
                   sys1 = sys\<lparr>institutions :=
                            put_institution (addRequest request inst) (institutions sys)\<rparr>
               in if getAvailableQuantity (centralInventory sys1) isbn < quantity
                  then Inr (sys1\<lparr>waitingList :=
                              addToWaitingList isbn instId quantity prio (waitingList sys1)\<rparr>)
                  else Inr sys1))"

definition executeDistribution :: "pop_order \<Rightarrow> clock \<Rightarrow> System \<Rightarrow> System" where
  "executeDistribution pq clk sys =
     (case distribute (distributionStrategy sys) pq clk
             (centralInventory sys, institutions sys, loanManager sys) of
        (iv, insts, loans) \<Rightarrow>
          sys\<lparr>centralInventory := iv, institutions := insts, loanManager := loans\<rparr>)"

definition setDistributionStrategy :: "Strategy \<Rightarrow> System \<Rightarrow> System" where
  "setDistributionStrategy strategy sys = sys\<lparr>distributionStrategy := strategy\<rparr>"

text \<open>
  \<open>GovernmentBooksManagementSystem::returnBooks\<close> prints one of two messages, or none;
  the model returns which, with the system it leaves.
\<close>

datatype return_message = BooksReturned | LoanNotFoundOrReturned | NoMessage

definition returnBooks :: "string \<Rightarrow> System \<Rightarrow> return_message \<times> System" where
  "returnBooks lid sys =
     (case loans_returnBooks lid (loanManager sys) of
        (ok, loans') \<Rightarrow>
          if ok then
            (case find (\<lambda>loan. loanId loan = lid) (getLoansByInstitution [] loans') of
               Some loan \<Rightarrow>
                 (BooksReturned,
                  sys\<lparr>loanManager := loans',
                      centralInventory :=
                        inventory_returnBooks (loan_isbn loan) (loan_quantity loan)
                          (centralInventory sys)\<rparr>)
             | None \<Rightarrow> (NoMessage, sys\<lparr>loanManager := loans'\<rparr>))
          else (LoanNotFoundOrReturned, sys\<lparr>loanManager := loans'\<rparr>))"

text \<open>The quantities the conservation property speaks of: all that was ever added
  for an ISBN (the ADD transactions), and what is out on loans not yet returned.\<close>

definition total_added :: "BookInventory \<Rightarrow> string \<Rightarrow> int" where
  "total_added iv isbn =
     sum_list (map tx_quantity
       (filter (\<lambda>t. tx_isbn t = isbn \<and> tx_type t = ''ADD'') (transactionLog iv)))"

definition on_loan :: "BookLoan list \<Rightarrow> string \<Rightarrow> int" where
  "on_loan loans isbn =
     sum_list (map loan_quantity (filter (\<lambda>l. loan_isbn l = isbn \<and> \<not> isReturned l) loans))"

subsection \<open>Notions used in the statements\<close>

text \<open>Position \<open>(i, j)\<close> names a request of the vector of institutions.\<close>

definition valid_pos :: "Institution list \<Rightarrow> nat \<Rightarrow> nat \<Rightarrow> bool" where
  "valid_pos insts i j \<longleftrightarrow> i < length insts \<and> j < length (requests (insts ! i))"

text \<open>The request invariant, for all requests of all institutions.\<close>

definition requests_ok :: "Institution list \<Rightarrow> bool" where
  "requests_ok insts \<longleftrightarrow>
     list_all (\<lambda>inst. list_all (\<lambda>r. quantityFulfilled r \<le> quantityRequested r) (requests inst))
       insts"

text \<open>The components of a world that the statements read.\<close>

definition avail_of :: "world \<Rightarrow> string \<Rightarrow> int" where
  "avail_of w isbn = getAvailableQuantity (fst w) isbn"

definition insts_of :: "world \<Rightarrow> Institution list" where
  "insts_of w = fst (snd w)"

definition loans_of :: "world \<Rightarrow> BookLoan list" where
  "loans_of w = snd (snd w)"

text \<open>The position of the request of a collected tuple.\<close>

definition key :: "item \<Rightarrow> nat \<times> nat" where
  "key e = (fst e, fst (snd e))"

text \<open>
  The tuples still to be served name different requests, and none carries more than
  its request still needs; with the request invariant, this is what a strategy
  that serves collected tuples maintains.
\<close>

definition captured_ok :: "world \<Rightarrow> item list \<Rightarrow> bool" where
  "captured_ok w rest \<longleftrightarrow>
     requests_ok (insts_of w) \<and>
     (\<forall>e \<in> set rest.
        snd (snd e) \<le> getRemainingQuantity (request_at (insts_of w) (fst e) (fst (snd e)))) \<and>
     distinct (map key rest)"

text \<open>
  \<open>grants clk allowed w w'\<close>: \<open>w'\<close> comes from \<open>w\<close> by running the shared block
  \<open>allocate_and_issue\<close> some number of times, each time for an ISBN and a position
  that \<open>allowed\<close> admits.
\<close>

inductive grants :: "clock \<Rightarrow> (string \<Rightarrow> nat \<times> nat \<Rightarrow> bool) \<Rightarrow> world \<Rightarrow> world \<Rightarrow> bool"
  for clk :: clock and allowed :: "string \<Rightarrow> nat \<times> nat \<Rightarrow> bool" where
  grants_none: "grants clk allowed w w"
| grants_more: "grants clk allowed w w1 \<Longrightarrow> allowed isbn (i, j) \<Longrightarrow>
     grants clk allowed w (allocate_and_issue clk isbn i j q w1)"

text \<open>What \<open>allocateBooks\<close> hands out when asked for \<open>a\<close> copies that are in stock.\<close>

definition granted :: "int \<Rightarrow> int" where
  "granted a = (if 0 < a \<and> a < 1000000 then a else 0)"

text \<open>
  The request at a position of a world, whether the position exists, and the guarded
  block of the proportional and the equal strategy: \<open>if (allocate > 0 && ...)\<close>.
\<close>

definition request_of :: "world \<Rightarrow> nat \<times> nat \<Rightarrow> BookRequest" where
  "request_of w p = request_at (insts_of w) (fst p) (snd p)"

definition valid_at :: "world \<Rightarrow> nat \<times> nat \<Rightarrow> bool" where
  "valid_at w p = valid_pos (insts_of w) (fst p) (snd p)"

definition grant_step :: "clock \<Rightarrow> string \<Rightarrow> nat \<times> nat \<Rightarrow> int \<Rightarrow> world \<Rightarrow> world" where
  "grant_step clk isbn p a w =
     (if 0 < a then allocate_and_issue clk isbn (fst p) (snd p) a w else w)"

subsection \<open>Call sequences and example data\<close>

text \<open>Sequences of calls on one inventory, starting from the empty one. A call of
  \<open>addBook\<close> that throws leaves the inventory as it was.\<close>

datatype inventory_call =
  AddBook Book int | AllocateBooks string int | ReturnBooks string int

fun inventory_step :: "BookInventory \<Rightarrow> inventory_call \<Rightarrow> BookInventory" where
  "inventory_step iv (AddBook book q) = (case addBook book q iv of Inr iv' \<Rightarrow> iv' | Inl e \<Rightarrow> iv)"
| "inventory_step iv (AllocateBooks isbn q) = snd (allocateBooks isbn q iv)"
| "inventory_step iv (ReturnBooks isbn q) = inventory_returnBooks isbn q iv"

definition inventory_after :: "inventory_call list \<Rightarrow> BookInventory" where
  "inventory_after calls = foldl inventory_step empty_inventory calls"

text \<open>Example data: a book with a well-formed ISBN, and an inventory holding
  1999998 copies of it after two deliveries of 999999.\<close>

definition isbn1 :: string where
  "isbn1 = ''9780000000001''"

definition book1 :: Book where
  "book1 = \<lparr>book_isbn = isbn1, title = ''Algebra'', author = ''Rao'', category = MATHEMATICS,
            publicationYear = 2020, publisher = ''NCERT''\<rparr>"

definition bulk_inventory :: BookInventory where
  "bulk_inventory = inventory_after [AddBook book1 999999, AddBook book1 999999]"

definition isbn2 :: string where
  "isbn2 = ''9780000000002''"

text \<open>
  Sequences of calls on a system, as the command loop of \<open>runCLI\<close> makes them: it
  starts from a system with the priority strategy, and a call that throws is caught
  and leaves the system as it was.
\<close>

datatype system_call =
  AddBookToInventory string string string BookCategory int string int
| RegisterInstitution string string InstitutionType string int
| SubmitBookRequest int string string int Priority
| SetDistributionStrategy Strategy
| ExecuteDistribution
| ReturnLoan string

fun system_step :: "pop_order \<Rightarrow> clock \<Rightarrow> System \<Rightarrow> system_call \<Rightarrow> System" where
  "system_step pq clk sys (AddBookToInventory isbn ttl auth cat year pub q) =
     (case Book_new isbn ttl auth cat year pub of
        Inl e \<Rightarrow> sys
      | Inr book \<Rightarrow> (case addBookToInventory book q sys of Inr sys' \<Rightarrow> sys' | Inl e \<Rightarrow> sys))"
| "system_step pq clk sys (RegisterInstitution ident nm ty loc students) =
     registerInstitution (Institution_new ident nm ty loc students) sys"
| "system_step pq clk sys (SubmitBookRequest now instId isbn q prio) =
     (case submitBookRequest now instId isbn q prio sys of Inr sys' \<Rightarrow> sys' | Inl e \<Rightarrow> sys)"
| "system_step pq clk sys (SetDistributionStrategy strategy) =
     setDistributionStrategy strategy sys"
| "system_step pq clk sys ExecuteDistribution = executeDistribution pq clk sys"
| "system_step pq clk sys (ReturnLoan lid) = snd (returnBooks lid sys)"

definition system_after :: "pop_order \<Rightarrow> clock \<Rightarrow> system_call list \<Rightarrow> System" where
  "system_after pq clk calls = foldl (system_step pq clk) (System_new PriorityBased) calls"

text \<open>
  The end-to-end run of the specification: 100 copies of one book, institution X asks
  for 60 with priority CRITICAL, institution Y for 60 with priority LOW, one cycle of
  the priority strategy; then X's loan is returned. The clock stands still.
\<close>

definition still_clock :: clock where
  "still_clock = (\<lambda>n. 1700000000)"

definition end_to_end_calls :: "system_call list" where
  "end_to_end_calls =
     [RegisterInstitution ''X'' ''School X'' HIGH_SCHOOL ''Pune'' 500,
      RegisterInstitution ''Y'' ''College Y'' COLLEGE ''Delhi'' 900,
      AddBookToInventory isbn1 ''Algebra'' ''Rao'' MATHEMATICS 2020 ''NCERT'' 100,
      SubmitBookRequest 1700000000 ''X'' isbn1 60 CRITICAL,
      SubmitBookRequest 1700000000 ''Y'' isbn1 60 LOW,
      ExecuteDistribution]"

definition after_cycle :: System where
  "after_cycle = system_after first_come_order still_clock end_to_end_calls"

definition after_return :: System where
  "after_return =
     system_after first_come_order still_clock
       (end_to_end_calls @ [ReturnLoan ''LOAN-X-1700000000''])"

definition before_cycle :: System where
  "before_cycle = system_after first_come_order still_clock (butlast end_to_end_calls)"

text \<open>
  A run with a request larger than any quantity the validator accepts: 1999998 copies
  in stock after two deliveries, X asks for 1999990 with priority CRITICAL, Y for 60
  with priority LOW, one cycle of the priority strategy.
\<close>

definition oversized_calls :: "system_call list" where
  "oversized_calls =
     [RegisterInstitution ''X'' ''School X'' HIGH_SCHOOL ''Pune'' 500,
      RegisterInstitution ''Y'' ''College Y'' COLLEGE ''Delhi'' 900,
      AddBookToInventory isbn1 ''Algebra'' ''Rao'' MATHEMATICS 2020 ''NCERT'' 999999,
      AddBookToInventory isbn1 ''Algebra'' ''Rao'' MATHEMATICS 2020 ''NCERT'' 999999,
      SubmitBookRequest 1700000000 ''X'' isbn1 1999990 CRITICAL,
      SubmitBookRequest 1700000000 ''Y'' isbn1 60 LOW,
      ExecuteDistribution]"

definition after_oversized_cycle :: System where
  "after_oversized_cycle = system_after first_come_order still_clock oversized_calls"

text \<open>Runs of the other two strategies. Proportional: 90 copies, X needs 60, Y needs 30.\<close>

definition proportional_calls :: "system_call list" where
  "proportional_calls =
     [RegisterInstitution ''X'' ''School X'' HIGH_SCHOOL ''Pune'' 500,
      RegisterInstitution ''Y'' ''College Y'' COLLEGE ''Delhi'' 900,
      AddBookToInventory isbn1 ''Algebra'' ''Rao'' MATHEMATICS 2020 ''NCERT'' 90,
      SubmitBookRequest 1700000000 ''X'' isbn1 60 MEDIUM,
      SubmitBookRequest 1700000000 ''Y'' isbn1 30 MEDIUM,
      SetDistributionStrategy NeedBased,
      ExecuteDistribution]"

text \<open>Proportional, with two requests of one institution: 5 copies, X asks for 3
  twice, Y for 4 once.\<close>

definition proportional_twice_calls :: "system_call list" where
  "proportional_twice_calls =
     [RegisterInstitution ''X'' ''School X'' HIGH_SCHOOL ''Pune'' 500,
      RegisterInstitution ''Y'' ''College Y'' COLLEGE ''Delhi'' 900,
      AddBookToInventory isbn1 ''Algebra'' ''Rao'' MATHEMATICS 2020 ''NCERT'' 5,
      SubmitBookRequest 1700000000 ''X'' isbn1 3 MEDIUM,
      SubmitBookRequest 1700000001 ''X'' isbn1 3 MEDIUM,
      SubmitBookRequest 1700000002 ''Y'' isbn1 4 MEDIUM,
      SetDistributionStrategy NeedBased,
      ExecuteDistribution]"

text \<open>Proportional, with a product beyond the range of \<open>int\<close>: 100000 copies, X and Y
  ask for 50000 each.\<close>

definition proportional_overflow_calls :: "system_call list" where
  "proportional_overflow_calls =
     [RegisterInstitution ''X'' ''School X'' HIGH_SCHOOL ''Pune'' 500,
      RegisterInstitution ''Y'' ''College Y'' COLLEGE ''Delhi'' 900,
      AddBookToInventory isbn1 ''Algebra'' ''Rao'' MATHEMATICS 2020 ''NCERT'' 100000,
      SubmitBookRequest 1700000000 ''X'' isbn1 50000 MEDIUM,
      SubmitBookRequest 1700000000 ''Y'' isbn1 50000 MEDIUM,
      SetDistributionStrategy NeedBased,
      ExecuteDistribution]"




text \<open>What the statements read off a system: fulfilled quantity and status of every
  request, institution by institution.\<close>

definition fulfilment :: "System \<Rightarrow> (int \<times> RequestStatus) list list" where
  "fulfilment sys =
     map (\<lambda>inst. map (\<lambda>r. (quantityFulfilled r, status r)) (requests inst)) (institutions sys)"

definition serving :: "item list \<Rightarrow> world \<Rightarrow> string \<Rightarrow> nat \<times> nat \<Rightarrow> bool" where
  "serving es w b p \<longleftrightarrow>
     p \<in> key ` set es \<and> b = req_isbn (request_at (insts_of w) (fst p) (snd p))"

text \<open>
  The tuples with outstanding need that a cycle collects for one ISBN, in collection
  order, and their total need; \<open>share\<close> is the proportional formula
  \<open>min(remaining, floor(A * remaining / T))\<close>.
\<close>

definition needs_for :: "Institution list \<Rightarrow> string \<Rightarrow> item list" where
  "needs_for insts isbn =
     filter (\<lambda>e. 0 < snd (snd e) \<and> req_isbn (request_at insts (fst e) (fst (snd e))) = isbn)
       (pending_items insts)"

definition total_need :: "Institution list \<Rightarrow> string \<Rightarrow> int" where
  "total_need insts isbn = sum_list (map (\<lambda>e. snd (snd e)) (needs_for insts isbn))"

definition share :: "int \<Rightarrow> int \<Rightarrow> int \<Rightarrow> int" where
  "share A T n = min n ((A * n) div T)"

section \<open>Properties of the inventory\<close>

lemma book1_constructible:
  "Book_new isbn1 ''Algebra'' ''Rao'' MATHEMATICS 2020 ''NCERT'' = Inr book1"
  by (simp add: Book_new_def book1_def isbn1_def isValidISBN_def isValidYear_def isdigit_def)

lemma bulk_inventory_stock: "stock bulk_inventory isbn1 = Some (book1, 1999998)"
  by (simp add: bulk_inventory_def inventory_after_def addBook_def isValidQuantity_def
      empty_inventory_def book1_def Let_def wrap_int_def)

lemma getAvailableQuantity_bulk: "getAvailableQuantity bulk_inventory isbn1 = 1999998"
  by (simp add: getAvailableQuantity_def bulk_inventory_stock)


lemma getBook_bulk: "getBook bulk_inventory isbn1 = Some book1"
  by (simp add: getBook_def bulk_inventory_stock)

subsection \<open>allocateBooks\<close>

text \<open>
  Claim C5, as amended. \<open>allocateBooks\<close> called with a quantity that the validator
  accepts, \<open>0 < qty < 1000000\<close>, succeeds if and only if the available quantity of the
  ISBN is at least \<open>qty\<close>; on success the available quantity goes down by exactly
  \<open>qty\<close>, on failure the inventory is left as it was. The method has no throwing path:
  its result is a \<open>bool\<close> and an inventory, for every input.
\<close>

theorem allocateBooks_within_bound:
  assumes "0 < qty" and "qty < 1000000"
  shows "(fst (allocateBooks isbn qty iv) \<longleftrightarrow> qty \<le> getAvailableQuantity iv isbn) \<and>
         (fst (allocateBooks isbn qty iv) \<longrightarrow>
            getAvailableQuantity (snd (allocateBooks isbn qty iv)) isbn
              = getAvailableQuantity iv isbn - qty) \<and>
         (\<not> fst (allocateBooks isbn qty iv) \<longrightarrow> snd (allocateBooks isbn qty iv) = iv)"
  using assms
  by (auto simp: allocateBooks_def isValidQuantity_def getAvailableQuantity_def
      split: option.splits)

text \<open>Claim C5, witness: 60 copies out of the 1999998 of the example inventory.\<close>

theorem allocateBooks_within_bound_witness:
  "fst (allocateBooks isbn1 60 bulk_inventory) \<and>
   getAvailableQuantity (snd (allocateBooks isbn1 60 bulk_inventory)) isbn1 = 1999938"
  using allocateBooks_within_bound [of 60 isbn1 bulk_inventory]
  by (simp add: getAvailableQuantity_bulk)

text \<open>
  Claim C5 as stated, with the precondition \<open>qty > 0\<close> alone, fails: the validator
  refuses a quantity of 1000000 although 1999998 copies are available.
\<close>

theorem allocateBooks_refuses_million:
  "(0::int) < 1000000 \<and> 1000000 \<le> getAvailableQuantity bulk_inventory isbn1 \<and>
   \<not> fst (allocateBooks isbn1 1000000 bulk_inventory)"
  by (simp add: getAvailableQuantity_bulk allocateBooks_def isValidQuantity_def)

text \<open>The guard of \<open>final.cpp\<close> has no upper bound: there the claim holds as stated.\<close>

lemma allocateBooks_final_iff:
  assumes "0 < qty"
  shows "(fst (allocateBooks_final isbn qty iv) \<longleftrightarrow> qty \<le> getAvailableQuantity iv isbn) \<and>
         (fst (allocateBooks_final isbn qty iv) \<longrightarrow>
            getAvailableQuantity (snd (allocateBooks_final isbn qty iv)) isbn
              = getAvailableQuantity iv isbn - qty) \<and>
         (\<not> fst (allocateBooks_final isbn qty iv) \<longrightarrow> snd (allocateBooks_final isbn qty iv) = iv)"
  using assms
  by (auto simp: allocateBooks_final_def getAvailableQuantity_def split: option.splits)

subsection \<open>BookInventory::returnBooks\<close>

lemma wrap_int_id: "INT_MIN \<le> x \<Longrightarrow> x \<le> INT_MAX \<Longrightarrow> wrap_int x = x"
  by (simp add: wrap_int_def INT_MIN_def INT_MAX_def)

lemma hundred_inventory_stock: "stock (inventory_after [AddBook book1 100]) isbn1 = Some (book1, 100)"
  by (simp add: inventory_after_def addBook_def isValidQuantity_def empty_inventory_def book1_def
      Let_def)

text \<open>
  Claim C6, as amended. For an ISBN that is in the store and every quantity
  \<open>qty > 0\<close> such that the available quantity plus \<open>qty\<close> does not exceed \<open>INT_MAX\<close>,
  \<open>returnBooks\<close> of the inventory leaves the available quantity plus \<open>qty\<close>. For an
  ISBN that was never added and every \<open>qty > 0\<close> it does nothing at all.
\<close>

theorem inventory_returnBooks_known_isbn:
  "(0 < qty \<and> getBook iv isbn \<noteq> None \<and> INT_MIN \<le> getAvailableQuantity iv isbn \<and>
    getAvailableQuantity iv isbn + qty \<le> INT_MAX \<longrightarrow>
      getAvailableQuantity (inventory_returnBooks isbn qty iv) isbn
        = getAvailableQuantity iv isbn + qty) \<and>
   (0 < qty \<and> getBook iv isbn = None \<longrightarrow>
      inventory_returnBooks isbn qty iv = iv \<and>
      getAvailableQuantity (inventory_returnBooks isbn qty iv) isbn = 0)"
proof -
  have known: "getAvailableQuantity (inventory_returnBooks isbn qty iv) isbn
      = getAvailableQuantity iv isbn + qty"
    if h: "0 < qty \<and> getBook iv isbn \<noteq> None \<and> INT_MIN \<le> getAvailableQuantity iv isbn \<and>
      getAvailableQuantity iv isbn + qty \<le> INT_MAX"
  proof -
    obtain b n where s: "stock iv isbn = Some (b, n)"
      using h by (auto simp: getBook_def split: option.splits)
    have "INT_MIN \<le> n + qty" and "n + qty \<le> INT_MAX"
      using h s by (simp_all add: getAvailableQuantity_def)
    then have "wrap_int (n + qty) = n + qty" by (rule wrap_int_id)
    then show ?thesis
      using s by (simp add: inventory_returnBooks_def getAvailableQuantity_def)
  qed
  have unknown: "inventory_returnBooks isbn qty iv = iv \<and>
      getAvailableQuantity (inventory_returnBooks isbn qty iv) isbn = 0"
    if "0 < qty \<and> getBook iv isbn = None"
  proof -
    have "stock iv isbn = None" using that by (auto simp: getBook_def split: option.splits)
    then show ?thesis by (simp add: inventory_returnBooks_def getAvailableQuantity_def)
  qed
  show ?thesis using known unknown by blast
qed

text \<open>Claim C6, witness: a known ISBN and an unknown one.\<close>

theorem inventory_returnBooks_known_isbn_witness:
  "getAvailableQuantity (inventory_returnBooks isbn1 5 bulk_inventory) isbn1 = 2000003 \<and>
   inventory_returnBooks isbn1 5 empty_inventory = empty_inventory"
  using inventory_returnBooks_known_isbn [of 5 bulk_inventory isbn1]
    inventory_returnBooks_known_isbn [of 5 empty_inventory isbn1]
  by (simp add: getBook_bulk getAvailableQuantity_bulk INT_MIN_def INT_MAX_def)
     (simp add: getBook_def empty_inventory_def)

text \<open>
  Claim C6 as stated, for every catalog id and every \<open>qty > 0\<close>, fails twice. For
  an ISBN never added to the store, the available quantity is still 0 after
  returning 5 copies. And for an ISBN in the store with 100 copies, returning
  2147483647 copies leaves the sum of two \<open>int\<close>s that no \<open>int\<close> holds: the stored
  quantity is \<open>-2147483549\<close>, not 2147483747.
\<close>

theorem inventory_returnBooks_unknown_isbn:
  "getBook empty_inventory isbn1 = None \<and> (0::int) < 5 \<and>
   getAvailableQuantity (inventory_returnBooks isbn1 5 empty_inventory) isbn1
     \<noteq> getAvailableQuantity empty_inventory isbn1 + 5 \<and>
   getBook (inventory_after [AddBook book1 100]) isbn1 = Some book1 \<and>
   getAvailableQuantity (inventory_after [AddBook book1 100]) isbn1 = 100 \<and>
   (0::int) < 2147483647 \<and>
   getAvailableQuantity
     (inventory_returnBooks isbn1 2147483647 (inventory_after [AddBook book1 100])) isbn1
     = - 2147483549 \<and>
   getAvailableQuantity
     (inventory_returnBooks isbn1 2147483647 (inventory_after [AddBook book1 100])) isbn1
     \<noteq> getAvailableQuantity (inventory_after [AddBook book1 100]) isbn1 + 2147483647"
  by (simp add: getBook_def empty_inventory_def inventory_returnBooks_def
      getAvailableQuantity_def hundred_inventory_stock wrap_int_def)

subsection \<open>Unknown ISBNs\<close>

lemma stock_inventory_step:
  "stock iv isbn = None \<Longrightarrow> (\<forall>book q. c = AddBook book q \<longrightarrow> book_isbn book \<noteq> isbn) \<Longrightarrow>
   stock (inventory_step iv c) isbn = None"
  by (cases c)
    (auto simp: addBook_def allocateBooks_def inventory_returnBooks_def Let_def
      split: option.splits if_splits)

lemma stock_foldl_inventory_step:
  "stock iv isbn = None \<Longrightarrow>
   \<forall>book q. AddBook book q \<in> set calls \<longrightarrow> book_isbn book \<noteq> isbn \<Longrightarrow>
   stock (foldl inventory_step iv calls) isbn = None"
proof (induction calls arbitrary: iv)
  case Nil
  then show ?case by simp
next
  case (Cons c calls)
  have "stock (inventory_step iv c) isbn = None"
    using Cons.prems by (intro stock_inventory_step) auto
  moreover have "\<forall>book q. AddBook book q \<in> set calls \<longrightarrow> book_isbn book \<noteq> isbn"
    using Cons.prems by auto
  ultimately have "stock (foldl inventory_step (inventory_step iv c) calls) isbn = None"
    by (rule Cons.IH)
  then show ?case by simp
qed

text \<open>
  Claim C10. After any sequence of calls on an inventory in which no \<open>addBook\<close> was
  for this ISBN, \<open>getAvailableQuantity\<close> is 0, \<open>getBook\<close> finds no book and
  \<open>allocateBooks\<close> fails for every quantity and changes nothing (with the guard of
  either source file). The three are total: none has a throwing path.
\<close>

theorem unknown_isbn_defaults:
  assumes "\<forall>book q. AddBook book q \<in> set calls \<longrightarrow> book_isbn book \<noteq> isbn"
  shows "getAvailableQuantity (inventory_after calls) isbn = 0 \<and>
         getBook (inventory_after calls) isbn = None \<and>
         (\<forall>qty. allocateBooks isbn qty (inventory_after calls) = (False, inventory_after calls)) \<and>
         (\<forall>qty. allocateBooks_final isbn qty (inventory_after calls)
                  = (False, inventory_after calls))"
proof -
  have "stock (inventory_after calls) isbn = None"
    unfolding inventory_after_def
    using assms by (intro stock_foldl_inventory_step) (simp_all add: empty_inventory_def)
  then show ?thesis
    by (simp add: getAvailableQuantity_def getBook_def allocateBooks_def allocateBooks_final_def)
qed

text \<open>Claim C10, witness: the other book was added, this one was not.\<close>

theorem unknown_isbn_defaults_witness:
  "getAvailableQuantity
     (inventory_after [AddBook book1 100, AllocateBooks isbn2 5, ReturnBooks isbn2 3]) isbn2 = 0 \<and>
   getBook (inventory_after [AddBook book1 100, AllocateBooks isbn2 5, ReturnBooks isbn2 3]) isbn2
     = None \<and>
   fst (allocateBooks isbn2 7
         (inventory_after [AddBook book1 100, AllocateBooks isbn2 5, ReturnBooks isbn2 3])) = False"
  using unknown_isbn_defaults
    [of "[AddBook book1 100, AllocateBooks isbn2 5, ReturnBooks isbn2 3]" isbn2]
  by (simp add: book1_def isbn1_def isbn2_def)

section \<open>The end-to-end run\<close>

lemmas scenario_defs = system_after_def end_to_end_calls_def still_clock_def Book_new_def
  wrap_int_def
  isValidISBN_def isValidYear_def isdigit_def deliver_def
  registerInstitution_def Institution_new_def addBookToInventory_def addBook_def isValidQuantity_def
  System_new_def empty_inventory_def book1_def isbn1_def submitBookRequest_def getInstitution_def
  getBook_def BookRequest_new_def addRequest_def getAvailableQuantity_def addToWaitingList_def
  executeDistribution_def PriorityBased_distribute_def pending_items_def getPendingRequests_def
  is_pending_def request_at_def getRemainingQuantity_def priority_cmp_def first_come_order_def
  priority_serve_def allocate_and_issue_def allocateBooks_def receiveBooks_def fulfillPartial_def
  issueBookLoan_def to_string_def digit_char_def Let_def

lemma after_cycle_loans:
  "loanManager after_cycle =
     [\<lparr>loanId = ''LOAN-X-1700000000'', loan_isbn = isbn1, loan_institutionId = ''X'',
       loan_quantity = 60, isReturned = False\<rparr>,
      \<lparr>loanId = ''LOAN-Y-1700000000'', loan_isbn = isbn1, loan_institutionId = ''Y'',
       loan_quantity = 40, isReturned = False\<rparr>]"
  unfolding after_cycle_def by (simp add: scenario_defs)

lemma after_cycle_stock: "stock (centralInventory after_cycle) isbn1 = Some (book1, 0)"
  unfolding after_cycle_def by (simp add: scenario_defs)

lemma after_cycle_log:
  "transactionLog (centralInventory after_cycle) =
     [\<lparr>tx_isbn = isbn1, tx_quantity = 100, tx_type = ''ADD''\<rparr>,
      \<lparr>tx_isbn = isbn1, tx_quantity = 60, tx_type = ''ALLOCATE''\<rparr>,
      \<lparr>tx_isbn = isbn1, tx_quantity = 40, tx_type = ''ALLOCATE''\<rparr>]"
  unfolding after_cycle_def by (simp add: scenario_defs)

lemma after_return_eq: "after_return = snd (returnBooks ''LOAN-X-1700000000'' after_cycle)"
  by (simp add: after_return_def after_cycle_def system_after_def)

lemma returnBooks_after_cycle:
  "returnBooks ''LOAN-X-1700000000'' after_cycle =
     (NoMessage, after_cycle\<lparr>loanManager :=
        [\<lparr>loanId = ''LOAN-X-1700000000'', loan_isbn = isbn1, loan_institutionId = ''X'',
          loan_quantity = 60, isReturned = True\<rparr>,
         \<lparr>loanId = ''LOAN-Y-1700000000'', loan_isbn = isbn1, loan_institutionId = ''Y'',
          loan_quantity = 40, isReturned = False\<rparr>]\<rparr>)"
  by (simp add: returnBooks_def after_cycle_loans getLoansByInstitution_def markReturned_def)

text \<open>
  Claim C1 says that returning a loan that exists and is not yet returned adds its
  quantity back to the available stock. In the end-to-end run, X's loan of 60 exists
  and is not returned, and no copy is available. \<open>returnBooks\<close> marks the loan returned,
  then looks the loan up among the loans of the institution with the empty id, finds
  none, prints nothing and credits nothing: the available quantity is still 0, not 60.
\<close>

theorem returnBooks_leaves_stock_uncredited:
  "getAvailableQuantity (centralInventory after_cycle) isbn1 = 0 \<and>
   map (\<lambda>l. (loanId l, loan_isbn l, loan_quantity l, isReturned l)) (loanManager after_cycle) =
     [(''LOAN-X-1700000000'', isbn1, 60, False), (''LOAN-Y-1700000000'', isbn1, 40, False)] \<and>
   fst (returnBooks ''LOAN-X-1700000000'' after_cycle) = NoMessage \<and>
   map (\<lambda>l. (loanId l, isReturned l))
     (loanManager (snd (returnBooks ''LOAN-X-1700000000'' after_cycle))) =
     [(''LOAN-X-1700000000'', True), (''LOAN-Y-1700000000'', False)] \<and>
   getAvailableQuantity (centralInventory (snd (returnBooks ''LOAN-X-1700000000'' after_cycle)))
     isbn1 = 0"
  by (simp add: returnBooks_after_cycle after_cycle_loans getAvailableQuantity_def
      after_cycle_stock)

text \<open>
  Claim C2 says that what was added for an ISBN equals what is available plus what is
  out on loans not yet returned. After the return of X's loan in the end-to-end run,
  100 copies were added, none is available and 40 are on loan: the 60 returned
  copies are in neither.
\<close>

theorem conservation_lost_on_return:
  "total_added (centralInventory after_return) isbn1 = 100 \<and>
   getAvailableQuantity (centralInventory after_return) isbn1 = 0 \<and>
   on_loan (loanManager after_return) isbn1 = 40"
  by (simp add: after_return_eq returnBooks_after_cycle total_added_def on_loan_def
      getAvailableQuantity_def after_cycle_stock after_cycle_log)

section \<open>The block shared by the strategies\<close>

lemma allocateBooks_success_iff:
  "fst (allocateBooks isbn q iv) \<longleftrightarrow> 0 < q \<and> q < 1000000 \<and> q \<le> getAvailableQuantity iv isbn"
  by (auto simp: allocateBooks_def isValidQuantity_def getAvailableQuantity_def split: option.splits)

lemma getAvailableQuantity_allocateBooks:
  "getAvailableQuantity (snd (allocateBooks isbn q iv)) b =
     (if fst (allocateBooks isbn q iv) \<and> b = isbn then getAvailableQuantity iv isbn - q
      else getAvailableQuantity iv b)"
  by (auto simp: allocateBooks_def isValidQuantity_def getAvailableQuantity_def split: option.splits)

lemma allocateBooks_fail_same: "\<not> fst (allocateBooks isbn q iv) \<Longrightarrow> snd (allocateBooks isbn q iv) = iv"
  by (auto simp: allocateBooks_def split: option.splits)

lemma allocate_and_issue_fail:
  "\<not> fst (allocateBooks isbn q iv) \<Longrightarrow>
   allocate_and_issue clk isbn i j q (iv, insts, loans) = (iv, insts, loans)"
  by (simp add: allocate_and_issue_def split_beta allocateBooks_fail_same)

lemma allocate_and_issue_ok:
  "fst (allocateBooks isbn q iv) \<Longrightarrow>
   allocate_and_issue clk isbn i j q (iv, insts, loans) =
     (snd (allocateBooks isbn q iv), insts[i := deliver isbn j q (insts ! i)],
      issueBookLoan clk isbn (institutionId (insts ! i)) q loans)"
  by (simp add: allocate_and_issue_def split_beta)

lemma requests_deliver:
  "requests (deliver isbn j q inst) = (requests inst)[j := fulfillPartial q (requests inst ! j)]"
  by (simp add: deliver_def receiveBooks_def Let_def)

lemma institutionId_deliver: "institutionId (deliver isbn j q inst) = institutionId inst"
  by (simp add: deliver_def receiveBooks_def Let_def)

lemma request_at_update:
  "request_at (insts[i := deliver isbn j q (insts ! i)]) i' j' =
     (if i' = i \<and> j' = j \<and> valid_pos insts i j then fulfillPartial q (request_at insts i j)
      else request_at insts i' j')"
proof (cases "i < length insts")
  case True
  then show ?thesis
    by (cases "i' = i"; cases "j < length (requests (insts ! i))")
       (auto simp: request_at_def valid_pos_def requests_deliver nth_list_update list_update_beyond)
next
  case False
  then show ?thesis by (simp add: request_at_def valid_pos_def list_update_beyond)
qed

lemma valid_pos_update:
  "valid_pos (insts[i := deliver isbn j q (insts ! i)]) i' j' = valid_pos insts i' j'"
  by (cases "i' = i") (auto simp: valid_pos_def requests_deliver)

text \<open>What the shared block does to the components of a world.\<close>

lemma fulfillPartial_fields [simp]:
  "req_isbn (fulfillPartial q r) = req_isbn r"
  "priority (fulfillPartial q r) = priority r"
  "quantityRequested (fulfillPartial q r) = quantityRequested r"
  "quantityFulfilled (fulfillPartial q r) = quantityFulfilled r + q"
  "requestId (fulfillPartial q r) = requestId r"
  by (simp_all add: fulfillPartial_def Let_def)

lemma ai_request:
  "request_at (insts_of (allocate_and_issue clk isbn i j q w)) i' j' =
     (if fst (allocateBooks isbn q (fst w)) \<and> i' = i \<and> j' = j \<and> valid_pos (insts_of w) i j
      then fulfillPartial q (request_at (insts_of w) i j)
      else request_at (insts_of w) i' j')"
  by (cases w; cases "fst (allocateBooks isbn q (fst w))")
     (auto simp: insts_of_def allocate_and_issue_ok allocate_and_issue_fail request_at_update)

lemma ai_valid_pos:
  "valid_pos (insts_of (allocate_and_issue clk isbn i j q w)) i' j' = valid_pos (insts_of w) i' j'"
  by (cases w; cases "fst (allocateBooks isbn q (fst w))")
     (auto simp: insts_of_def allocate_and_issue_ok allocate_and_issue_fail valid_pos_update)

lemma ai_avail:
  "avail_of (allocate_and_issue clk isbn i j q w) b =
     (if fst (allocateBooks isbn q (fst w)) \<and> b = isbn then avail_of w isbn - q else avail_of w b)"
  by (cases w; cases "fst (allocateBooks isbn q (fst w))")
     (auto simp: avail_of_def allocate_and_issue_ok allocate_and_issue_fail getAvailableQuantity_allocateBooks)

lemma ai_length:
  "length (insts_of (allocate_and_issue clk isbn i j q w)) = length (insts_of w)"
  by (cases w; cases "fst (allocateBooks isbn q (fst w))")
     (auto simp: insts_of_def allocate_and_issue_ok allocate_and_issue_fail)

section \<open>The request invariant through a cycle\<close>

lemma requests_ok_iff:
  "requests_ok insts \<longleftrightarrow>
     (\<forall>i j. valid_pos insts i j \<longrightarrow>
        quantityFulfilled (request_at insts i j) \<le> quantityRequested (request_at insts i j))"
  by (auto simp: requests_ok_def valid_pos_def request_at_def list_all_length)

lemma set_pending_items:
  "e \<in> set (pending_items insts) \<longleftrightarrow>
     (\<exists>i j. e = (i, j, getRemainingQuantity (request_at insts i j)) \<and> valid_pos insts i j \<and>
            is_pending (request_at insts i j))"
  by (auto simp: pending_items_def getPendingRequests_def valid_pos_def request_at_def)

lemma distinct_concat_pairs:
  "distinct xs \<Longrightarrow> (\<And>i. distinct (h i)) \<Longrightarrow>
   distinct (concat (map (\<lambda>i. map (Pair i) (h i)) xs))"
  by (induction xs) (auto simp: distinct_map inj_on_def)

lemma map_key_pending_items:
  "map key (pending_items insts) =
     concat (map (\<lambda>i. map (Pair i) (getPendingRequests (insts ! i))) [0..<length insts])"
  by (simp add: pending_items_def map_concat key_def comp_def)

lemma distinct_pending_items: "distinct (map key (pending_items insts))"
  unfolding map_key_pending_items
  by (rule distinct_concat_pairs) (simp_all add: getPendingRequests_def)

lemma Inv_weaken: "captured_ok w (xs @ rest) \<Longrightarrow> captured_ok w rest"
  by (auto simp: captured_ok_def)

lemma requests_ok_allocate_and_issue:
  assumes "requests_ok (insts_of w)"
    and "q \<le> getRemainingQuantity (request_at (insts_of w) i j)"
  shows "requests_ok (insts_of (allocate_and_issue clk isbn i j q w))"
  using assms
  by (auto simp: requests_ok_iff ai_request ai_valid_pos getRemainingQuantity_def)

lemma Inv_allocate_and_issue:
  assumes "captured_ok w ((i, j, n) # rest)" and "q \<le> n"
  shows "captured_ok (allocate_and_issue clk isbn i j q w) rest"
proof -
  have ok: "requests_ok (insts_of w)"
    and n: "n \<le> getRemainingQuantity (request_at (insts_of w) i j)"
    and rest: "\<forall>e \<in> set rest. snd (snd e) \<le> getRemainingQuantity (request_at (insts_of w) (fst e) (fst (snd e)))"
    and notin: "(i, j) \<notin> key ` set rest" and d: "distinct (map key rest)"
    using assms(1) by (auto simp: captured_ok_def key_def)
  have "requests_ok (insts_of (allocate_and_issue clk isbn i j q w))"
    using ok n assms(2) by (intro requests_ok_allocate_and_issue) auto
  moreover have "snd (snd e) \<le> getRemainingQuantity
       (request_at (insts_of (allocate_and_issue clk isbn i j q w)) (fst e) (fst (snd e)))"
    if "e \<in> set rest" for e
  proof -
    have "key e \<noteq> (i, j)" using that notin by force
    then have "request_at (insts_of (allocate_and_issue clk isbn i j q w)) (fst e) (fst (snd e))
        = request_at (insts_of w) (fst e) (fst (snd e))"
      by (auto simp: ai_request key_def)
    then show ?thesis using rest that by simp
  qed
  ultimately show ?thesis using d by (simp add: captured_ok_def)
qed

lemma Inv_foldl:
  assumes step: "\<And>w i j n. f w (i, j, n) = w \<or> (\<exists>isbn q. q \<le> n \<and> f w (i, j, n) = allocate_and_issue clk isbn i j q w)"
  shows "captured_ok w (es @ rest) \<Longrightarrow> captured_ok (foldl f w es) rest"
proof (induction es arbitrary: w)
  case Nil
  then show ?case by simp
next
  case (Cons e es)
  obtain i j n where e: "e = (i, j, n)" by (cases e) auto
  have "captured_ok (f w e) (es @ rest)"
  proof -
    from step [of w i j n] consider "f w e = w"
      | isbn q where "q \<le> n" "f w e = allocate_and_issue clk isbn i j q w"
      using e by auto
    then show ?thesis
    proof cases
      case 1
      then show ?thesis using Cons.prems Inv_weaken [of w "[e]" "es @ rest"] by simp
    next
      case 2
      then show ?thesis using Cons.prems e Inv_allocate_and_issue [of w i j n "es @ rest" q] by simp
    qed
  qed
  then show ?case using Cons.IH by simp
qed

lemma priority_serve_shape:
  "priority_serve clk w (i, j, n) = w \<or>
   (\<exists>isbn q. q \<le> n \<and> priority_serve clk w (i, j, n) = allocate_and_issue clk isbn i j q w)"
proof (cases "avail_of w (req_isbn (request_at (insts_of w) i j)) \<le> 0")
  case True
  then show ?thesis by (cases w) (simp add: priority_serve_def avail_of_def insts_of_def)
next
  case False
  then have "priority_serve clk w (i, j, n) =
      allocate_and_issue clk (req_isbn (request_at (insts_of w) i j)) i j
        (min n (avail_of w (req_isbn (request_at (insts_of w) i j)))) w"
    by (cases w) (simp add: priority_serve_def avail_of_def insts_of_def Let_def)
  moreover have "min n (avail_of w (req_isbn (request_at (insts_of w) i j))) \<le> n" by simp
  ultimately show ?thesis by blast
qed

lemma need_serve_shape:
  "need_serve clk isbn A T w (i, j, n) = w \<or>
   (\<exists>isbn' q. q \<le> n \<and> need_serve clk isbn A T w (i, j, n) = allocate_and_issue clk isbn' i j q w)"
proof (cases "0 < (if T > 0 then min n (c_div (wrap_int (A * n)) T) else 0)")
  case False
  then show ?thesis by (simp add: need_serve_def Let_def)
next
  case True
  then have "need_serve clk isbn A T w (i, j, n) =
      allocate_and_issue clk isbn i j (min n (c_div (wrap_int (A * n)) T)) w"
    by (simp add: need_serve_def Let_def split: if_splits)
  moreover have "min n (c_div (wrap_int (A * n)) T) \<le> n" by simp
  ultimately show ?thesis by blast
qed

lemma Inv_initial:
  assumes "requests_ok insts" and "mset es = mset (filter P (pending_items insts))"
  shows "captured_ok (iv, insts, loans) es"
proof -
  have "set es \<subseteq> set (pending_items insts)"
    using assms(2) by (metis mset_eq_setD set_filter mem_Collect_eq subsetI)
  then have "\<forall>e \<in> set es. snd (snd e) \<le> getRemainingQuantity (request_at insts (fst e) (fst (snd e)))"
    by (auto simp: set_pending_items)
  moreover have "distinct (map key es)"
  proof -
    have "mset (map key es) = mset (map key (filter P (pending_items insts)))"
      using assms(2) by (metis mset_map)
    moreover have "distinct (map key (filter P (pending_items insts)))"
      using distinct_pending_items by (rule distinct_map_filter)
    ultimately show ?thesis by (metis mset_eq_imp_distinct_iff)
  qed
  ultimately show ?thesis using assms(1) by (simp add: captured_ok_def insts_of_def)
qed

lemma requests_ok_PriorityBased:
  assumes "requests_ok insts" and "pq_ok pq"
  shows "requests_ok (insts_of (PriorityBased_distribute pq clk (iv, insts, loans)))"
proof -
  let ?es = "pq (priority_cmp insts) (pending_items insts)"
  have "mset ?es = mset (filter (\<lambda>_. True) (pending_items insts))"
    using assms(2) by (simp add: pq_ok_def pop_order_ok_def)
  then have "captured_ok (iv, insts, loans) (?es @ [])"
    using assms(1) Inv_initial [where P = "\<lambda>_. True"] by simp
  then have "captured_ok (foldl (priority_serve clk) (iv, insts, loans) ?es) []"
    by (rule Inv_foldl [where clk = clk and f = "priority_serve clk", OF priority_serve_shape])
  then show ?thesis by (simp add: PriorityBased_distribute_def captured_ok_def)
qed

lemma mset_concat_map_push:
  "mset (concat (map snd (map_push k x m))) = add_mset x (mset (concat (map snd m)))"
  by (induction m) auto

lemma mset_needMap:
  "mset (concat (map snd (needMap insts))) = mset (filter (\<lambda>e. snd (snd e) > 0) (pending_items insts))"
proof -
  have "mset (concat (map snd (foldl (\<lambda>m e. case e of (i, j, need) \<Rightarrow>
              if need > 0 then map_push (req_isbn (request_at insts i j)) (i, j, need) m else m) m0 es)))
      = mset (concat (map snd m0)) + mset (filter (\<lambda>e. snd (snd e) > 0) es)" for m0 es
    by (induction es arbitrary: m0) (auto simp: mset_concat_map_push)
  from this [of "[]"] show ?thesis by (simp add: needMap_def)
qed

lemma Inv_need_group:
  assumes "captured_ok w (snd g @ rest)"
  shows "captured_ok (need_group clk w g) rest"
proof -
  obtain isbn needs where g: "g = (isbn, needs)" by (cases g) auto
  show ?thesis
  proof (cases "need_group clk w g = w")
    case True
    then show ?thesis using assms Inv_weaken by simp
  next
    case False
    then obtain A T where "need_group clk w g = foldl (need_serve clk isbn A T) w needs"
      using g by (cases w) (auto simp: need_group_def Let_def split: if_splits)
    moreover have "captured_ok (foldl (need_serve clk isbn A T) w needs) rest"
      using assms g by (intro Inv_foldl [where clk = clk and f = "need_serve clk isbn A T", OF need_serve_shape]) simp
    ultimately show ?thesis by simp
  qed
qed

lemma Inv_need_groups:
  "captured_ok w (concat (map snd gs) @ rest) \<Longrightarrow> captured_ok (foldl (need_group clk) w gs) rest"
proof (induction gs arbitrary: w)
  case Nil
  then show ?case by simp
next
  case (Cons g gs)
  then have "captured_ok (need_group clk w g) (concat (map snd gs) @ rest)"
    using Inv_need_group [of w g "concat (map snd gs) @ rest"] by simp
  then show ?case using Cons.IH by simp
qed

lemma requests_ok_NeedBased:
  assumes "requests_ok insts"
  shows "requests_ok (insts_of (NeedBased_distribute clk (iv, insts, loans)))"
proof -
  have "captured_ok (iv, insts, loans) (concat (map snd (needMap insts)) @ [])"
    using assms Inv_initial mset_needMap by simp
  then have "captured_ok (foldl (need_group clk) (iv, insts, loans) (needMap insts)) []"
    by (rule Inv_need_groups)
  then show ?thesis by (simp add: NeedBased_distribute_def captured_ok_def)
qed

lemma foldl_preserves:
  "(\<And>w x. P w \<Longrightarrow> P (f w x)) \<Longrightarrow> P w \<Longrightarrow> P (foldl f w xs)"
  by (induction xs arbitrary: w) auto

lemma requests_ok_equal_serve:
  "requests_ok (insts_of w) \<Longrightarrow> requests_ok (insts_of (equal_serve clk isbn p w e))"
  by (cases w; cases e)
     (auto simp: equal_serve_def Let_def insts_of_def intro!: requests_ok_allocate_and_issue [unfolded insts_of_def, simplified])

lemma requests_ok_equal_group:
  "requests_ok (insts_of w) \<Longrightarrow> requests_ok (insts_of (equal_group clk w g))"
  by (cases w; cases g)
     (auto simp: equal_group_def Let_def intro!: foldl_preserves [where P = "\<lambda>w. requests_ok (insts_of w)"] requests_ok_equal_serve)

lemma requests_ok_Equal:
  assumes "requests_ok insts"
  shows "requests_ok (insts_of (EqualDistribution_distribute clk (iv, insts, loans)))"
  using assms
  by (auto simp: EqualDistribution_distribute_def insts_of_def
      intro!: foldl_preserves [where P = "\<lambda>w. requests_ok (insts_of w)", unfolded insts_of_def] requests_ok_equal_group [unfolded insts_of_def])

section \<open>Sequences of grants\<close>

lemma grants_trans:
  "grants clk allowed w1 w2 \<Longrightarrow> grants clk allowed w0 w1 \<Longrightarrow> grants clk allowed w0 w2"
  by (induction rule: grants.induct) (auto intro: grants.intros)

lemma grants_mono:
  "grants clk allowed w w' \<Longrightarrow> (\<And>b p. allowed b p \<Longrightarrow> allowed' b p) \<Longrightarrow> grants clk allowed' w w'"
  by (induction rule: grants.induct) (auto intro: grants.intros)

lemma grants_one: "allowed isbn (i, j) \<Longrightarrow> grants clk allowed w (allocate_and_issue clk isbn i j q w)"
  by (rule grants_more [OF grants_none])

lemma grants_valid_pos:
  "grants clk allowed w w' \<Longrightarrow> valid_pos (insts_of w') i j = valid_pos (insts_of w) i j"
  by (induction rule: grants.induct) (simp_all add: ai_valid_pos)

lemma grants_length: "grants clk allowed w w' \<Longrightarrow> length (insts_of w') = length (insts_of w)"
  by (induction rule: grants.induct) (simp_all add: ai_length)

lemma ai_fields:
  "req_isbn (request_at (insts_of (allocate_and_issue clk isbn i' j' q w)) i j)
     = req_isbn (request_at (insts_of w) i j)"
  "priority (request_at (insts_of (allocate_and_issue clk isbn i' j' q w)) i j)
     = priority (request_at (insts_of w) i j)"
  "quantityRequested (request_at (insts_of (allocate_and_issue clk isbn i' j' q w)) i j)
     = quantityRequested (request_at (insts_of w) i j)"
  by (simp_all add: ai_request)

lemma grants_fields:
  assumes "grants clk allowed w w'"
  shows "req_isbn (request_at (insts_of w') i j) = req_isbn (request_at (insts_of w) i j)"
    and "priority (request_at (insts_of w') i j) = priority (request_at (insts_of w) i j)"
    and "quantityRequested (request_at (insts_of w') i j) = quantityRequested (request_at (insts_of w) i j)"
  using assms by (induction rule: grants.induct) (simp_all add: ai_fields)

lemma grants_avail_le: "grants clk allowed w w' \<Longrightarrow> avail_of w' b \<le> avail_of w b"
  by (induction rule: grants.induct) (auto simp: ai_avail allocateBooks_success_iff)

lemma grants_avail_other:
  "grants clk allowed w w' \<Longrightarrow> (\<And>p. \<not> allowed b p) \<Longrightarrow> avail_of w' b = avail_of w b"
  by (induction rule: grants.induct) (auto simp: ai_avail)

lemma grants_request_other:
  assumes "grants clk allowed w w'" and "\<forall>b. \<not> allowed b (i, j)"
  shows "request_at (insts_of w') i j = request_at (insts_of w) i j"
  using assms
proof (induction rule: grants.induct)
  case (grants_none w)
  then show ?case by simp
next
  case (grants_more w w1 isbn i' j' q)
  have "\<not> (i = i' \<and> j = j')"
    using grants_more.hyps(2) grants_more.prems by blast
  then have "request_at (insts_of (allocate_and_issue clk isbn i' j' q w1)) i j
      = request_at (insts_of w1) i j"
    by (auto simp: ai_request)
  then show ?case using grants_more.IH grants_more.prems by simp
qed

lemma grants_exhausted_avail:
  "grants clk allowed w w' \<Longrightarrow> avail_of w b \<le> 0 \<Longrightarrow> avail_of w' b = avail_of w b"
proof (induction rule: grants.induct)
  case (grants_none w)
  then show ?case by simp
next
  case (grants_more w w1 isbn i j q)
  then have "avail_of w1 b \<le> 0" by simp
  then have "\<not> (fst (allocateBooks isbn q (fst w1)) \<and> b = isbn)"
    by (auto simp: allocateBooks_success_iff avail_of_def)
  then show ?case using grants_more by (auto simp: ai_avail)
qed

lemma grants_exhausted_request:
  assumes "grants clk allowed w w'" and "avail_of w b \<le> 0"
    and "\<forall>b'. allowed b' (i, j) \<longrightarrow> b' = b"
  shows "request_at (insts_of w') i j = request_at (insts_of w) i j"
  using assms
proof (induction rule: grants.induct)
  case (grants_none w)
  then show ?case by simp
next
  case (grants_more w w1 isbn i' j' q)
  have "avail_of w1 b \<le> 0"
    using grants_exhausted_avail [OF grants_more.hyps(1) grants_more.prems(1)] grants_more.prems(1)
    by simp
  then have "\<not> (fst (allocateBooks isbn q (fst w1)) \<and> b = isbn)"
    by (auto simp: allocateBooks_success_iff avail_of_def)
  moreover have "i = i' \<and> j = j' \<longrightarrow> isbn = b"
    using grants_more.hyps(2) grants_more.prems(2) by blast
  ultimately have "request_at (insts_of (allocate_and_issue clk isbn i' j' q w1)) i j
      = request_at (insts_of w1) i j"
    by (auto simp: ai_request)
  then show ?case using grants_more.IH grants_more.prems by simp
qed

lemma grants_fulfilled_mono:
  assumes "grants clk allowed w w'"
  shows "quantityFulfilled (request_at (insts_of w) i j)
           \<le> quantityFulfilled (request_at (insts_of w') i j)"
  using assms
proof (induction rule: grants.induct)
  case (grants_none w)
  then show ?case by simp
next
  case (grants_more w w1 isbn i' j' q)
  have "quantityFulfilled (request_at (insts_of w1) i j)
      \<le> quantityFulfilled (request_at (insts_of (allocate_and_issue clk isbn i' j' q w1)) i j)"
    by (simp add: ai_request allocateBooks_success_iff)
  then show ?case using grants_more.IH by simp
qed

text \<open>The first-come order is a pop order the library may produce.\<close>

lemma mset_pq_insert: "mset (pq_insert lt e q) = add_mset e (mset q)"
  by (induction q) auto

lemma set_pq_insert: "set (pq_insert lt e q) = insert e (set q)"
  by (induction q) auto

lemma sorted_pq_insert:
  fixes f :: "item \<Rightarrow> int"
  assumes "sorted_wrt (\<lambda>a b. \<not> f a < f b) q"
  shows "sorted_wrt (\<lambda>a b. \<not> f a < f b) (pq_insert (\<lambda>a b. f a < f b) e q)"
  using assms by (induction q) (auto simp: set_pq_insert)

lemma first_come_order_aux:
  fixes f :: "item \<Rightarrow> int"
  assumes "sorted_wrt (\<lambda>a b. \<not> f a < f b) q"
  shows "mset (foldl (\<lambda>q e. pq_insert (\<lambda>a b. f a < f b) e q) q es) = mset q + mset es \<and>
         sorted_wrt (\<lambda>a b. \<not> f a < f b) (foldl (\<lambda>q e. pq_insert (\<lambda>a b. f a < f b) e q) q es)"
  using assms
proof (induction es arbitrary: q)
  case Nil
  then show ?case by simp
next
  case (Cons e es)
  have "sorted_wrt (\<lambda>a b. \<not> f a < f b) (pq_insert (\<lambda>a b. f a < f b) e q)"
    using Cons.prems by (rule sorted_pq_insert)
  from Cons.IH [OF this] show ?case by (simp add: mset_pq_insert)
qed

lemma priority_cmp_alt:
  "priority_cmp insts =
     (\<lambda>a b. priority_int (priority (request_at insts (fst a) (fst (snd a))))
            < priority_int (priority (request_at insts (fst b) (fst (snd b)))))"
  by (simp add: priority_cmp_def fun_eq_iff)

lemma pq_ok_first_come_order: "pq_ok first_come_order"
  unfolding pq_ok_def pop_order_ok_def first_come_order_def priority_cmp_alt
  using first_come_order_aux [of _ "[]"] by simp

section \<open>The priority strategy\<close>

lemma priority_serve_eq:
  "priority_serve clk w (i, j, n) =
     (if avail_of w (req_isbn (request_at (insts_of w) i j)) \<le> 0 then w
      else allocate_and_issue clk (req_isbn (request_at (insts_of w) i j)) i j
             (min n (avail_of w (req_isbn (request_at (insts_of w) i j)))) w)"
  by (cases w) (simp add: priority_serve_def avail_of_def insts_of_def Let_def)

lemma grants_priority_serve: "grants clk (serving [e] w) w (priority_serve clk w e)"
proof -
  obtain i j n where e: "e = (i, j, n)" by (cases e) auto
  have "serving [e] w (req_isbn (request_at (insts_of w) i j)) (i, j)"
    by (simp add: serving_def key_def e)
  then show ?thesis
    unfolding e priority_serve_eq by (auto intro: grants_none grants_one)
qed

lemma serving_after:
  assumes "grants clk allowed w w'"
  shows "serving es w' = serving es w"
  using grants_fields(1) [OF assms] by (simp add: serving_def fun_eq_iff)

lemma grants_priority_fold:
  "grants clk (serving es w) w (foldl (priority_serve clk) w es)"
proof (induction es arbitrary: w)
  case Nil
  then show ?case by (simp add: grants_none)
next
  case (Cons e es)
  let ?w1 = "priority_serve clk w e"
  have step: "grants clk (serving [e] w) w ?w1" by (rule grants_priority_serve)
  have "grants clk (serving es ?w1) ?w1 (foldl (priority_serve clk) ?w1 es)" by (rule Cons.IH)
  then have "grants clk (serving es w) ?w1 (foldl (priority_serve clk) ?w1 es)"
    using serving_after [OF step] by simp
  then have "grants clk (serving (e # es) w) ?w1 (foldl (priority_serve clk) ?w1 es)"
    by (rule grants_mono) (auto simp: serving_def)
  moreover have "grants clk (serving (e # es) w) w ?w1"
    using step by (rule grants_mono) (auto simp: serving_def)
  ultimately show ?case using grants_trans by simp
qed

lemma priority_fold_untouched:
  assumes "(i, j) \<notin> key ` set es"
  shows "request_at (insts_of (foldl (priority_serve clk) w es)) i j = request_at (insts_of w) i j"
  using grants_priority_fold [of clk es w] assms
  by (intro grants_request_other [where allowed = "serving es w"]) (auto simp: serving_def)

lemma priority_fold_exhausted:
  assumes "avail_of w b \<le> 0"
  shows "avail_of (foldl (priority_serve clk) w es) b = avail_of w b"
    and "req_isbn (request_at (insts_of w) i j) = b \<Longrightarrow>
         request_at (insts_of (foldl (priority_serve clk) w es)) i j = request_at (insts_of w) i j"
proof -
  show "avail_of (foldl (priority_serve clk) w es) b = avail_of w b"
    using grants_priority_fold assms by (rule grants_exhausted_avail)
  assume "req_isbn (request_at (insts_of w) i j) = b"
  then have "\<forall>b'. serving es w b' (i, j) \<longrightarrow> b' = b" by (simp add: serving_def)
  with grants_priority_fold assms
  show "request_at (insts_of (foldl (priority_serve clk) w es)) i j = request_at (insts_of w) i j"
    by (rule grants_exhausted_request)
qed

text \<open>Serving the tuple of the higher priority.\<close>

lemma priority_serve_first:
  assumes v: "valid_pos (insts_of w) i j"
    and n: "0 < n" and bound: "min n (avail_of w (req_isbn (request_at (insts_of w) i j))) < 1000000"
  shows "request_at (insts_of (priority_serve clk w (i, j, n))) i j
           = fulfillPartial n (request_at (insts_of w) i j) \<or>
         avail_of (priority_serve clk w (i, j, n)) (req_isbn (request_at (insts_of w) i j)) \<le> 0"
proof -
  let ?b = "req_isbn (request_at (insts_of w) i j)"
  let ?A = "avail_of w ?b"
  show ?thesis
  proof (cases "?A \<le> 0")
    case True
    then show ?thesis by (simp add: priority_serve_eq)
  next
    case False
    let ?q = "min n ?A"
    have ok: "fst (allocateBooks ?b ?q (fst w))"
      using False n bound by (simp add: allocateBooks_success_iff avail_of_def)
    have eq: "priority_serve clk w (i, j, n) = allocate_and_issue clk ?b i j ?q w"
      using False by (simp add: priority_serve_eq)
    show ?thesis
    proof (cases "n \<le> ?A")
      case True
      then have "?q = n" by simp
      then show ?thesis using ok v by (simp add: eq ai_request)
    next
      case False
      then have "?q = ?A" by simp
      then show ?thesis using ok by (simp add: eq ai_avail)
    qed
  qed
qed

lemma sorted_split:
  assumes "sorted_wrt (\<lambda>a b. \<not> lt a b) es" and "e1 \<in> set es" and "e2 \<in> set es" and "lt e2 e1"
    and "e2 \<noteq> e1"
  shows "\<exists>xs ys. es = xs @ e1 # ys \<and> e2 \<in> set ys"
proof -
  obtain xs ys where es: "es = xs @ e1 # ys" using assms(2) by (meson split_list)
  have "e2 \<notin> set xs"
  proof
    assume "e2 \<in> set xs"
    then have "\<not> lt e2 e1" using assms(1) by (auto simp: es sorted_wrt_append)
    then show False using assms(4) by simp
  qed
  then show ?thesis using assms(3,5) es by auto
qed

lemma priority_precedence:
  assumes pq: "pq_ok pq"
    and v1: "valid_pos insts i1 j1" and p1: "is_pending (request_at insts i1 j1)"
    and v2: "valid_pos insts i2 j2" and p2: "is_pending (request_at insts i2 j2)"
    and same: "req_isbn (request_at insts i2 j2) = req_isbn (request_at insts i1 j1)"
    and prio: "priority_int (priority (request_at insts i2 j2))
                 < priority_int (priority (request_at insts i1 j1))"
    and need: "0 < getRemainingQuantity (request_at insts i1 j1)"
    and bound: "min (getRemainingQuantity (request_at insts i1 j1))
                  (getAvailableQuantity iv (req_isbn (request_at insts i1 j1))) < 1000000"
  shows "request_at (insts_of (PriorityBased_distribute pq clk (iv, insts, loans))) i1 j1
           = fulfillPartial (getRemainingQuantity (request_at insts i1 j1)) (request_at insts i1 j1)
         \<or> (request_at (insts_of (PriorityBased_distribute pq clk (iv, insts, loans))) i2 j2
               = request_at insts i2 j2 \<and>
            avail_of (PriorityBased_distribute pq clk (iv, insts, loans))
               (req_isbn (request_at insts i1 j1)) \<le> 0)"
proof -
  let ?r1 = "request_at insts i1 j1" and ?r2 = "request_at insts i2 j2"
  let ?b = "req_isbn ?r1"
  let ?n1 = "getRemainingQuantity ?r1"
  let ?e1 = "(i1, j1, ?n1)" and ?e2 = "(i2, j2, getRemainingQuantity ?r2)"
  let ?es = "pq (priority_cmp insts) (pending_items insts)"
  let ?f = "priority_serve clk"
  let ?w0 = "(iv, insts, loans)"
  have ok: "mset ?es = mset (pending_items insts)" "sorted_wrt (\<lambda>a b. \<not> priority_cmp insts a b) ?es"
    using pq by (simp_all add: pq_ok_def pop_order_ok_def)
  have set_es: "set ?es = set (pending_items insts)" using ok(1) by (rule mset_eq_setD)
  have in1: "?e1 \<in> set ?es" using v1 p1 by (auto simp: set_es set_pending_items)
  have in2: "?e2 \<in> set ?es" using v2 p2 by (auto simp: set_es set_pending_items)
  have lt: "priority_cmp insts ?e2 ?e1" using prio by (simp add: priority_cmp_def)
  have ne: "?e2 \<noteq> ?e1" using prio by auto
  obtain xs ys where es: "?es = xs @ ?e1 # ys" and e2ys: "?e2 \<in> set ys"
    using sorted_split [OF ok(2) in1 in2 lt ne] by blast
  have "distinct (map key ?es)"
  proof -
    have "mset (map key ?es) = mset (map key (pending_items insts))"
      using ok(1) by (metis mset_map)
    then show ?thesis using distinct_pending_items by (metis mset_eq_imp_distinct_iff)
  qed
  then have d: "distinct (map key (xs @ ?e1 # ys))" by (simp only: es)
  have disj: "key ` set xs \<inter> key ` set ys = {}"
    and d1: "key ?e1 \<notin> key ` set xs" "key ?e1 \<notin> key ` set ys"
    using d by auto
  have ke1: "key ?e1 = (i1, j1)" and ke2: "key ?e2 = (i2, j2)" by (simp_all add: key_def)
  have k2in: "(i2, j2) \<in> key ` set ys" using e2ys ke2 by (metis imageI)
  have k1xs: "(i1, j1) \<notin> key ` set xs" and k1ys: "(i1, j1) \<notin> key ` set ys"
    using d1 ke1 by simp_all
  have k2xs: "(i2, j2) \<notin> key ` set xs" using disj k2in by blast
  have k21: "(i2, j2) \<noteq> (i1, j1)" using k2in k1ys by metis
  let ?w1 = "foldl ?f ?w0 xs"
  let ?w2 = "?f ?w1 ?e1"
  let ?w3 = "foldl ?f ?w2 ys"
  have w3: "PriorityBased_distribute pq clk ?w0 = ?w3"
    by (simp add: PriorityBased_distribute_def es)
  have g1: "grants clk (serving xs ?w0) ?w0 ?w1" by (rule grants_priority_fold)
  have r1w1: "request_at (insts_of ?w1) i1 j1 = ?r1"
    using priority_fold_untouched [OF k1xs, of clk ?w0] by (simp add: insts_of_def)
  have r2w1: "request_at (insts_of ?w1) i2 j2 = ?r2"
    using priority_fold_untouched [OF k2xs, of clk ?w0] by (simp add: insts_of_def)
  have v1w1: "valid_pos (insts_of ?w1) i1 j1"
    using grants_valid_pos [OF g1] v1 by (simp add: insts_of_def)
  have "avail_of ?w1 ?b \<le> avail_of ?w0 ?b" using g1 by (rule grants_avail_le)
  then have bound1: "min ?n1 (avail_of ?w1 ?b) < 1000000"
    using bound by (simp add: avail_of_def min_def split: if_splits)
  have first: "request_at (insts_of ?w2) i1 j1 = fulfillPartial ?n1 ?r1 \<or> avail_of ?w2 ?b \<le> 0"
    using priority_serve_first [of ?w1 i1 j1 ?n1 clk] v1w1 need bound1 by (simp add: r1w1)
  have r2w2: "request_at (insts_of ?w2) i2 j2 = ?r2"
  proof -
    have "(i2, j2) \<notin> key ` set [?e1]" using k21 by (simp add: key_def)
    from priority_fold_untouched [OF this, of clk ?w1] show ?thesis by (simp add: r2w1)
  qed
  from first show ?thesis
  proof
    assume "request_at (insts_of ?w2) i1 j1 = fulfillPartial ?n1 ?r1"
    then have "request_at (insts_of ?w3) i1 j1 = fulfillPartial ?n1 ?r1"
      using priority_fold_untouched [OF k1ys, of clk ?w2] by simp
    then show ?thesis by (simp only: w3) simp
  next
    assume ex: "avail_of ?w2 ?b \<le> 0"
    have "avail_of ?w3 ?b = avail_of ?w2 ?b" using ex by (rule priority_fold_exhausted(1))
    moreover have "request_at (insts_of ?w3) i2 j2 = request_at (insts_of ?w2) i2 j2"
      using ex by (rule priority_fold_exhausted(2)) (simp add: r2w2 same)
    ultimately have "request_at (insts_of ?w3) i2 j2 = ?r2 \<and> avail_of ?w3 ?b \<le> 0"
      using ex r2w2 by simp
    then show ?thesis by (simp only: w3) simp
  qed
qed

section \<open>Runs of the system\<close>

lemmas run_defs = system_after_def still_clock_def Book_new_def wrap_int_def
  isValidISBN_def isValidYear_def isdigit_def deliver_def
  registerInstitution_def Institution_new_def addBookToInventory_def addBook_def isValidQuantity_def
  System_new_def empty_inventory_def isbn1_def submitBookRequest_def getInstitution_def
  getBook_def BookRequest_new_def addRequest_def getAvailableQuantity_def addToWaitingList_def
  executeDistribution_def setDistributionStrategy_def pending_items_def getPendingRequests_def
  is_pending_def request_at_def getRemainingQuantity_def
  allocate_and_issue_def allocateBooks_def receiveBooks_def fulfillPartial_def
  issueBookLoan_def Let_def fulfilment_def

lemmas priority_defs = PriorityBased_distribute_def priority_cmp_def first_come_order_def
  priority_serve_def

lemmas need_defs = NeedBased_distribute_def needMap_def need_group_def need_serve_def c_div_def


lemma after_oversized:
  "fulfilment after_oversized_cycle = [[(0, PENDING)], [(60, FULFILLED)]] \<and>
   getAvailableQuantity (centralInventory after_oversized_cycle) isbn1 = 1999938"
  unfolding after_oversized_cycle_def oversized_calls_def
  by (simp add: run_defs priority_defs)

lemma proportional_run:
  "fulfilment (system_after pq clk proportional_calls) = [[(60, FULFILLED)], [(30, FULFILLED)]] \<and>
   getAvailableQuantity (centralInventory (system_after pq clk proportional_calls)) isbn1 = 0"
  unfolding proportional_calls_def
  by (simp add: run_defs need_defs)




lemma mset_two: "mset xs = {#a, b#} \<Longrightarrow> xs = [a, b] \<or> xs = [b, a]"
proof -
  assume h: "mset xs = {#a, b#}"
  then have "size (mset xs) = 2" by simp
  then have "length xs = 2" by simp
  then obtain x y where xs: "xs = [x, y]"
    by (metis (no_types) length_0_conv length_Suc_conv numeral_2_eq_2)
  from h show ?thesis unfolding xs by (auto simp: add_eq_conv_ex)
qed

lemma pop_two:
  assumes "pq_ok pq" and "priority_cmp insts b a"
  shows "pq (priority_cmp insts) [a, b] = [a, b]"
proof -
  have m: "mset (pq (priority_cmp insts) [a, b]) = {#a, b#}"
    and s: "sorted_wrt (\<lambda>x y. \<not> priority_cmp insts x y) (pq (priority_cmp insts) [a, b])"
    using assms(1) by (simp_all add: pq_ok_def pop_order_ok_def)
  from mset_two [OF m] show ?thesis
  proof
    assume "pq (priority_cmp insts) [a, b] = [b, a]"
    then show ?thesis using s assms(2) by simp
  qed simp
qed

lemma before_cycle_any: "system_after pq clk (butlast end_to_end_calls) = before_cycle"
  unfolding before_cycle_def end_to_end_calls_def
  by (simp add: run_defs)

lemma pending_before_cycle: "pending_items (institutions before_cycle) = [(0, 0, 60), (1, 0, 60)]"
  unfolding before_cycle_def end_to_end_calls_def
  by (simp add: run_defs)

lemma cmp_before_cycle: "priority_cmp (institutions before_cycle) (1, 0, 60) (0, 0, 60)"
  unfolding before_cycle_def end_to_end_calls_def
  by (simp add: run_defs priority_cmp_def)

lemma strategy_before_cycle: "distributionStrategy before_cycle = PriorityBased"
  unfolding before_cycle_def end_to_end_calls_def
  by (simp add: run_defs)

lemma end_to_end_any:
  "system_after pq clk end_to_end_calls = executeDistribution pq clk before_cycle"
proof -
  have "end_to_end_calls = butlast end_to_end_calls @ [ExecuteDistribution]"
    by (simp add: end_to_end_calls_def)
  then have "system_after pq clk end_to_end_calls
      = system_step pq clk (system_after pq clk (butlast end_to_end_calls)) ExecuteDistribution"
    unfolding system_after_def by (metis foldl_Cons foldl_Nil foldl_append)
  then show ?thesis by (simp add: before_cycle_any)
qed

lemma priority_example:
  assumes "pq_ok pq"
  shows "fulfilment (system_after pq clk end_to_end_calls)
           = [[(60, FULFILLED)], [(40, PARTIALLY_FULFILLED)]]"
proof -
  have pop: "pq (priority_cmp (institutions before_cycle)) [(0, 0, 60), (1, 0, 60)]
      = [(0, 0, 60), (1, 0, 60)]"
    using assms cmp_before_cycle by (rule pop_two)
  have "executeDistribution pq clk before_cycle =
      (case foldl (priority_serve clk)
              (centralInventory before_cycle, institutions before_cycle, loanManager before_cycle)
              [(0, 0, 60), (1, 0, 60)] of
         (iv, insts, loans) \<Rightarrow>
           before_cycle\<lparr>centralInventory := iv, institutions := insts, loanManager := loans\<rparr>)"
    by (simp only: executeDistribution_def strategy_before_cycle distribute.simps
        PriorityBased_distribute_def prod.case pending_before_cycle pop)
  also have "fulfilment \<dots> = [[(60, FULFILLED)], [(40, PARTIALLY_FULFILLED)]]"
    unfolding before_cycle_def end_to_end_calls_def
    by (simp add: run_defs priority_serve_def)
  finally show ?thesis by (simp add: end_to_end_any)
qed

text \<open>The request invariant at the level of the system.\<close>

lemma fulfillPartial_within:
  "qty \<le> getRemainingQuantity r \<Longrightarrow>
   quantityFulfilled (fulfillPartial qty r) \<le> quantityRequested (fulfillPartial qty r)"
  by (simp add: getRemainingQuantity_def)

lemma requests_ok_distribute:
  assumes "pq_ok pq" and "requests_ok insts"
  shows "requests_ok (insts_of (distribute strategy pq clk (iv, insts, loans)))"
  using assms
  by (cases strategy)
     (simp_all add: requests_ok_PriorityBased requests_ok_NeedBased requests_ok_Equal)

lemma requests_ok_put:
  "requests_ok insts \<Longrightarrow>
   list_all (\<lambda>r. quantityFulfilled r \<le> quantityRequested r) (requests inst) \<Longrightarrow>
   requests_ok (put_institution inst insts)"
  by (induction insts) (auto simp: requests_ok_def)

lemma requests_ok_member:
  "requests_ok insts \<Longrightarrow> inst \<in> set insts \<Longrightarrow>
   list_all (\<lambda>r. quantityFulfilled r \<le> quantityRequested r) (requests inst)"
  by (simp add: requests_ok_def list_all_iff)

lemma requests_ok_submit:
  assumes "requests_ok (institutions sys)" and "0 \<le> q"
    and "submitBookRequest now instId isbn q prio sys = Inr sys'"
  shows "requests_ok (institutions sys')"
proof -
  obtain inst where f: "getInstitution sys instId = Some inst"
    using assms(3) by (auto simp: submitBookRequest_def split: option.splits)
  then have "inst \<in> set (institutions sys)"
    by (auto simp: getInstitution_def find_Some_iff)
  then have "list_all (\<lambda>r. quantityFulfilled r \<le> quantityRequested r) (requests inst)"
    using assms(1) requests_ok_member by blast
  then have "list_all (\<lambda>r. quantityFulfilled r \<le> quantityRequested r)
      (requests (addRequest (BookRequest_new (''REQ-'' @ instId @ ''-'' @ to_string now) isbn q prio) inst))"
    using assms(2) by (simp add: addRequest_def BookRequest_new_def)
  then have "requests_ok (put_institution
      (addRequest (BookRequest_new (''REQ-'' @ instId @ ''-'' @ to_string now) isbn q prio) inst)
      (institutions sys))"
    using assms(1) requests_ok_put by blast
  moreover have "institutions sys' = put_institution
      (addRequest (BookRequest_new (''REQ-'' @ instId @ ''-'' @ to_string now) isbn q prio) inst)
      (institutions sys)"
    using assms(3) f by (auto simp: submitBookRequest_def Let_def split: option.splits if_splits)
  ultimately show ?thesis by simp
qed

lemma institutions_returnBooks: "institutions (snd (returnBooks lid sys)) = institutions sys"
  by (simp add: returnBooks_def split: prod.splits option.splits)

lemma requests_ok_execute:
  assumes "pq_ok pq" and "requests_ok (institutions sys)"
  shows "requests_ok (institutions (executeDistribution pq clk sys))"
proof -
  have "institutions (executeDistribution pq clk sys) =
      insts_of (distribute (distributionStrategy sys) pq clk
        (centralInventory sys, institutions sys, loanManager sys))"
    by (simp add: executeDistribution_def insts_of_def split: prod.splits)
  then show ?thesis using requests_ok_distribute [OF assms] by simp
qed

lemma requests_ok_step:
  assumes "pq_ok pq" and "requests_ok (institutions sys)"
    and "\<forall>now instId isbn q prio. call = SubmitBookRequest now instId isbn q prio \<longrightarrow> 0 \<le> q"
  shows "requests_ok (institutions (system_step pq clk sys call))"
proof (cases call)
  case (AddBookToInventory isbn ttl auth cat year pub q)
  then show ?thesis using assms(2)
    by (auto simp: addBookToInventory_def split: sum.splits)
next
  case (RegisterInstitution ident nm ty loc students)
  then show ?thesis using assms(2)
    by (simp add: registerInstitution_def requests_ok_put Institution_new_def)
next
  case (SubmitBookRequest now instId isbn q prio)
  then show ?thesis using assms(2,3) requests_ok_submit
    by (auto split: sum.splits)
next
  case (SetDistributionStrategy strategy)
  then show ?thesis using assms(2) by (simp add: setDistributionStrategy_def)
next
  case ExecuteDistribution
  then show ?thesis using assms(1,2) by (simp add: requests_ok_execute)
next
  case (ReturnLoan lid)
  then show ?thesis using assms(2) by (simp add: institutions_returnBooks)
qed

lemma requests_ok_foldl_step:
  assumes "pq_ok pq"
  shows "requests_ok (institutions sys) \<Longrightarrow>
    \<forall>now instId isbn q prio. SubmitBookRequest now instId isbn q prio \<in> set calls \<longrightarrow> 0 \<le> q \<Longrightarrow>
    requests_ok (institutions (foldl (system_step pq clk) sys calls))"
proof (induction calls arbitrary: sys)
  case Nil
  then show ?case by simp
next
  case (Cons c calls)
  have "requests_ok (institutions (system_step pq clk sys c))"
    using assms Cons.prems by (intro requests_ok_step) auto
  moreover have "\<forall>now instId isbn q prio. SubmitBookRequest now instId isbn q prio \<in> set calls \<longrightarrow> 0 \<le> q"
    using Cons.prems(2) by auto
  ultimately have "requests_ok (institutions (foldl (system_step pq clk) (system_step pq clk sys c) calls))"
    by (rule Cons.IH)
  then show ?case by simp
qed

lemma requests_ok_system_after:
  assumes "pq_ok pq"
    and "\<forall>now instId isbn q prio. SubmitBookRequest now instId isbn q prio \<in> set calls \<longrightarrow> 0 \<le> q"
  shows "requests_ok (institutions (system_after pq clk calls))"
  unfolding system_after_def
  using assms by (intro requests_ok_foldl_step) (simp_all add: System_new_def requests_ok_def)

section \<open>Priority precedence, the request invariant, the waiting list\<close>

lemma fulfillPartial_all:
  "fulfillPartial (getRemainingQuantity r) r = r\<lparr>quantityFulfilled := quantityRequested r, status := FULFILLED\<rparr>"
  by (simp add: fulfillPartial_def getRemainingQuantity_def Let_def)

lemma before_cycle_world:
  "institutions before_cycle =
     [\<lparr>institutionId = ''X'', inst_name = ''School X'', inst_type = HIGH_SCHOOL, location = ''Pune'',
       studentCount = 500, currentBooks = Map.empty,
       requests = [\<lparr>requestId = ''REQ-X-1700000000'', req_isbn = isbn1, quantityRequested = 60,
                    quantityFulfilled = 0, priority = CRITICAL, status = PENDING\<rparr>]\<rparr>,
      \<lparr>institutionId = ''Y'', inst_name = ''College Y'', inst_type = COLLEGE, location = ''Delhi'',
       studentCount = 900, currentBooks = Map.empty,
       requests = [\<lparr>requestId = ''REQ-Y-1700000000'', req_isbn = isbn1, quantityRequested = 60,
                    quantityFulfilled = 0, priority = LOW, status = PENDING\<rparr>]\<rparr>]"
  "getAvailableQuantity (centralInventory before_cycle) isbn1 = 100"
  "loanManager before_cycle = []"
  "waitingList before_cycle = Map.empty"
  unfolding before_cycle_def end_to_end_calls_def
  by (simp_all add: run_defs to_string_def digit_char_def)

text \<open>
  Claim C3, as amended. Take two pending requests for the same ISBN, the first of
  strictly higher priority, with a positive remaining quantity \<open>n\<close>, and such that
  \<open>min n available\<close> is below 1000000, the bound of the validator on one allocation.
  After one cycle of the priority strategy, whatever order the priority queue gives
  to equal priorities, either the first request is fulfilled completely (status
  FULFILLED), or the second request has not received a single copy and no copy of
  that ISBN is left. And in the end-to-end run (stock 100, X CRITICAL 60, Y LOW 60),
  X ends with 60 fulfilled and status \<open>FULFILLED\<close>, Y with 40 and \<open>PARTIALLY_FULFILLED\<close>.
\<close>

theorem priority_precedence_bounded:
  "(pq_ok pq \<and> valid_pos insts i1 j1 \<and> is_pending (request_at insts i1 j1) \<and>
    valid_pos insts i2 j2 \<and> is_pending (request_at insts i2 j2) \<and>
    req_isbn (request_at insts i2 j2) = req_isbn (request_at insts i1 j1) \<and>
    priority_int (priority (request_at insts i2 j2)) < priority_int (priority (request_at insts i1 j1)) \<and>
    0 < getRemainingQuantity (request_at insts i1 j1) \<and>
    min (getRemainingQuantity (request_at insts i1 j1))
        (getAvailableQuantity iv (req_isbn (request_at insts i1 j1))) < 1000000 \<longrightarrow>
    (quantityFulfilled (request_at (insts_of (PriorityBased_distribute pq clk (iv, insts, loans))) i1 j1)
        = quantityRequested (request_at insts i1 j1) \<and>
     status (request_at (insts_of (PriorityBased_distribute pq clk (iv, insts, loans))) i1 j1)
        = FULFILLED) \<or>
    (request_at (insts_of (PriorityBased_distribute pq clk (iv, insts, loans))) i2 j2
        = request_at insts i2 j2 \<and>
     avail_of (PriorityBased_distribute pq clk (iv, insts, loans))
        (req_isbn (request_at insts i1 j1)) \<le> 0)) \<and>
   (pq_ok pq \<longrightarrow>
      fulfilment (system_after pq clk end_to_end_calls)
        = [[(60, FULFILLED)], [(40, PARTIALLY_FULFILLED)]])"
proof (intro conjI impI)
  assume h: "pq_ok pq \<and> valid_pos insts i1 j1 \<and> is_pending (request_at insts i1 j1) \<and>
    valid_pos insts i2 j2 \<and> is_pending (request_at insts i2 j2) \<and>
    req_isbn (request_at insts i2 j2) = req_isbn (request_at insts i1 j1) \<and>
    priority_int (priority (request_at insts i2 j2)) < priority_int (priority (request_at insts i1 j1)) \<and>
    0 < getRemainingQuantity (request_at insts i1 j1) \<and>
    min (getRemainingQuantity (request_at insts i1 j1))
        (getAvailableQuantity iv (req_isbn (request_at insts i1 j1))) < 1000000"
  have "request_at (insts_of (PriorityBased_distribute pq clk (iv, insts, loans))) i1 j1
           = fulfillPartial (getRemainingQuantity (request_at insts i1 j1)) (request_at insts i1 j1)
         \<or> (request_at (insts_of (PriorityBased_distribute pq clk (iv, insts, loans))) i2 j2
               = request_at insts i2 j2 \<and>
            avail_of (PriorityBased_distribute pq clk (iv, insts, loans))
               (req_isbn (request_at insts i1 j1)) \<le> 0)"
    using h by (intro priority_precedence) simp_all
  then show "(quantityFulfilled (request_at (insts_of (PriorityBased_distribute pq clk (iv, insts, loans))) i1 j1)
        = quantityRequested (request_at insts i1 j1) \<and>
     status (request_at (insts_of (PriorityBased_distribute pq clk (iv, insts, loans))) i1 j1)
        = FULFILLED) \<or>
    (request_at (insts_of (PriorityBased_distribute pq clk (iv, insts, loans))) i2 j2
        = request_at insts i2 j2 \<and>
     avail_of (PriorityBased_distribute pq clk (iv, insts, loans))
        (req_isbn (request_at insts i1 j1)) \<le> 0)"
    by (auto simp: fulfillPartial_all)
next
  assume "pq_ok pq"
  then show "fulfilment (system_after pq clk end_to_end_calls)
        = [[(60, FULFILLED)], [(40, PARTIALLY_FULFILLED)]]"
    by (rule priority_example)
qed

text \<open>Claim C3, witness: the two requests of the end-to-end run.\<close>

theorem priority_precedence_bounded_witness:
  "((quantityFulfilled (request_at (insts_of (PriorityBased_distribute first_come_order still_clock
        (centralInventory before_cycle, institutions before_cycle, loanManager before_cycle))) 0 0)
        = 60 \<and>
     status (request_at (insts_of (PriorityBased_distribute first_come_order still_clock
        (centralInventory before_cycle, institutions before_cycle, loanManager before_cycle))) 0 0)
        = FULFILLED) \<or>
    (request_at (insts_of (PriorityBased_distribute first_come_order still_clock
        (centralInventory before_cycle, institutions before_cycle, loanManager before_cycle))) 1 0
        = request_at (institutions before_cycle) 1 0 \<and>
     avail_of (PriorityBased_distribute first_come_order still_clock
        (centralInventory before_cycle, institutions before_cycle, loanManager before_cycle))
        isbn1 \<le> 0)) \<and>
   fulfilment after_cycle = [[(60, FULFILLED)], [(40, PARTIALLY_FULFILLED)]]"
  using priority_precedence_bounded [of first_come_order "institutions before_cycle" 0 0 1 0
      "centralInventory before_cycle" still_clock "loanManager before_cycle"]
    pq_ok_first_come_order
  by (simp add: before_cycle_world valid_pos_def is_pending_def request_at_def
      getRemainingQuantity_def after_cycle_def)

text \<open>
  Claim C3 as stated, for any two requests, fails. With 1999998 copies in stock, X's
  request of priority CRITICAL for 1999990 and Y's of priority LOW for 60 cannot both
  be satisfied. X's tuple is popped first, but \<open>allocateBooks\<close> refuses the quantity
  1999990, so X receives nothing and stays PENDING; Y then receives its 60 copies,
  and 1999938 copies remain.
\<close>

theorem oversized_request_starves:
  "fulfilment after_oversized_cycle = [[(0, PENDING)], [(60, FULFILLED)]] \<and>
   getAvailableQuantity (centralInventory after_oversized_cycle) isbn1 = 1999938"
  by (rule after_oversized)

text \<open>
  Claim C4, as amended. \<open>fulfillPartial\<close> keeps \<open>fulfilled \<le> requested\<close> when its
  quantity is between 0 and the remaining quantity of the request. A distribution
  cycle of each of the three strategies keeps it for every request of every
  institution. So it holds after every sequence of calls on the system in which
  requests are submitted with a quantity that is not negative.
\<close>

theorem request_invariant_preserved:
  "(0 \<le> qty \<and> qty \<le> getRemainingQuantity r \<longrightarrow>
      quantityFulfilled (fulfillPartial qty r) \<le> quantityRequested (fulfillPartial qty r)) \<and>
   (pq_ok pq \<and> requests_ok insts \<longrightarrow>
      requests_ok (insts_of (distribute strategy pq clk (iv, insts, loans)))) \<and>
   (pq_ok pq \<and>
    (\<forall>now instId isbn q prio. SubmitBookRequest now instId isbn q prio \<in> set calls \<longrightarrow> 0 \<le> q) \<longrightarrow>
      requests_ok (institutions (system_after pq clk calls)))"
  using fulfillPartial_within requests_ok_distribute requests_ok_system_after by blast

text \<open>Claim C4, witness: a request of 60 given 40, an Equal cycle on the system of the
  end-to-end run, and the end-to-end run itself.\<close>

theorem request_invariant_preserved_witness:
  "quantityFulfilled (fulfillPartial 40 (BookRequest_new ''REQ-X-1700000000'' isbn1 60 LOW)) \<le> 60 \<and>
   requests_ok (insts_of (distribute Equal first_come_order still_clock
      (centralInventory before_cycle, institutions before_cycle, loanManager before_cycle))) \<and>
   requests_ok (institutions after_cycle)"
  using request_invariant_preserved [of 40 "BookRequest_new ''REQ-X-1700000000'' isbn1 60 LOW"
      first_come_order "institutions before_cycle" Equal still_clock "centralInventory before_cycle"
      "loanManager before_cycle" end_to_end_calls]
    pq_ok_first_come_order
  by (simp add: before_cycle_world requests_ok_def BookRequest_new_def getRemainingQuantity_def
      after_cycle_def end_to_end_calls_def)

text \<open>
  Claim C4 as stated, for \<open>fulfillPartial\<close> with any quantity from 0 on, fails:
  \<open>fulfillPartial\<close> adds without a check, so 20 copies on a request for 10 leave
  20 fulfilled of 10 requested. And a request may be constructed with a negative
  quantity, which is below its fulfilled quantity 0 from the start.
\<close>

theorem fulfillPartial_beyond_request:
  "(0::int) \<le> 20 \<and>
   quantityRequested (fulfillPartial 20 (BookRequest_new ''REQ-X-1700000000'' isbn1 10 LOW)) = 10 \<and>
   quantityFulfilled (fulfillPartial 20 (BookRequest_new ''REQ-X-1700000000'' isbn1 10 LOW)) = 20 \<and>
   quantityRequested (BookRequest_new ''REQ-X-1700000000'' isbn1 (- 5) LOW) = - 5 \<and>
   quantityFulfilled (BookRequest_new ''REQ-X-1700000000'' isbn1 (- 5) LOW) = 0"
  by (simp add: BookRequest_new_def)

text \<open>
  Claim C9. A call of \<open>submitBookRequest\<close> that is accepted (it throws when the
  institution or the book is unknown, and then nothing changes) appends an entry to
  the waiting queue of its ISBN exactly when the requested quantity exceeds the
  available quantity, and touches no other queue. \<open>executeDistribution\<close> leaves the
  waiting list as it is: \<open>getWaitingCount\<close> is the same before and after, for every
  ISBN.
\<close>

theorem waiting_list_observational:
  "(case submitBookRequest now instId isbn q prio sys of
      Inl e \<Rightarrow> True
    | Inr sys' \<Rightarrow>
        waitingList sys' =
          (if getAvailableQuantity (centralInventory sys) isbn < q
           then addToWaitingList isbn instId q prio (waitingList sys) else waitingList sys) \<and>
        getWaitingCount (waitingList sys') isbn =
          (if getAvailableQuantity (centralInventory sys) isbn < q
           then getWaitingCount (waitingList sys) isbn + 1 else getWaitingCount (waitingList sys) isbn) \<and>
        (\<forall>b. b \<noteq> isbn \<longrightarrow> getWaitingCount (waitingList sys') b = getWaitingCount (waitingList sys) b)) \<and>
   waitingList (executeDistribution pq clk sys) = waitingList sys \<and>
   (\<forall>b. getWaitingCount (waitingList (executeDistribution pq clk sys)) b
          = getWaitingCount (waitingList sys) b)"
  by (auto simp: submitBookRequest_def executeDistribution_def Let_def addToWaitingList_def
      getWaitingCount_def split: option.splits sum.splits prod.splits)

text \<open>Claim C9, witness: X asks for 150 copies when 100 are available, then a cycle
  runs.\<close>

theorem waiting_list_observational_witness:
  "(case submitBookRequest 1700000005 ''X'' isbn1 150 HIGH before_cycle of
      Inl e \<Rightarrow> False
    | Inr sys' \<Rightarrow> getWaitingCount (waitingList before_cycle) isbn1 = 0 \<and>
        getWaitingCount (waitingList sys') isbn1 = 1 \<and>
        getWaitingCount (waitingList (executeDistribution first_come_order still_clock sys')) isbn1 = 1)"
proof -
  obtain s where s: "submitBookRequest 1700000005 ''X'' isbn1 150 HIGH before_cycle = Inr s"
    by (simp add: submitBookRequest_def getInstitution_def before_cycle_world getBook_def Let_def
        getAvailableQuantity_def [symmetric] split: option.splits)
       (use before_cycle_world(2) in \<open>auto simp: getAvailableQuantity_def split: option.splits\<close>)
  show ?thesis
    using waiting_list_observational [where now = 1700000005 and instId = "''X''" and isbn = isbn1
        and q = 150 and prio = HIGH and sys = before_cycle and pq = first_come_order
        and clk = still_clock]
      waiting_list_observational [where sys = s and pq = first_come_order and clk = still_clock]
    by (simp add: s before_cycle_world getWaitingCount_def addToWaitingList_def)
qed

section \<open>The groups of the proportional and the equal strategy\<close>

text \<open>A \<open>std::map\<close> built with \<open>map_push\<close> has one entry for each key, and the entry of a key
  holds what was pushed for it, in the order of the pushes.\<close>

lemma keys_map_push: "fst ` set (map_push k x m) = insert k (fst ` set m)"
  by (induction m) force+

lemma sorted_map_push:
  "sorted_wrt (<) (map fst m) \<Longrightarrow> sorted_wrt (<) (map fst (map_push k x m))"
proof (induction m)
  case Nil
  then show ?case by simp
next
  case (Cons g m)
  obtain k' xs where g: "g = (k', xs)" by (cases g) auto
  show ?case
  proof (cases "k = k'")
    case True
    then show ?thesis using Cons.prems g by simp
  next
    case ne: False
    show ?thesis
    proof (cases "k < k'")
      case True
      then show ?thesis using Cons.prems g ne by auto
    next
      case False
      then have lt: "k' < k" using ne by auto
      have "\<forall>y \<in> set (map fst (map_push k x m)). k' < y"
        using Cons.prems g lt by (auto simp: keys_map_push)
      then show ?thesis using Cons g ne False by simp
    qed
  qed
qed

lemma map_of_map_push:
  "sorted_wrt (<) (map fst m) \<Longrightarrow>
   map_of (map_push k x m) = (map_of m)(k \<mapsto> (case map_of m k of None \<Rightarrow> [] | Some xs \<Rightarrow> xs) @ [x])"
proof (induction m)
  case Nil
  then show ?case by simp
next
  case (Cons g m)
  obtain k' xs where g: "g = (k', xs)" by (cases g) auto
  show ?case
  proof (cases "k = k'")
    case True
    then show ?thesis using g by (auto simp: fun_eq_iff)
  next
    case ne: False
    show ?thesis
    proof (cases "k < k'")
      case True
      have "k \<notin> fst ` set m" using Cons.prems g True by auto
      then have "map_of m k = None" by (simp add: map_of_eq_None_iff)
      then show ?thesis using g ne True by (auto simp: fun_eq_iff)
    next
      case False
      have "sorted_wrt (<) (map fst m)" using Cons.prems by simp
      from Cons.IH [OF this] show ?thesis using g ne False by (auto simp: fun_upd_twist)
    qed
  qed
qed

lemma grouped:
  fixes P :: "'e \<Rightarrow> bool" and kf :: "'e \<Rightarrow> string" and v :: "'e \<Rightarrow> 'a"
  assumes "sorted_wrt (<) (map fst m0)"
  shows "sorted_wrt (<) (map fst (foldl (\<lambda>m e. if P e then map_push (kf e) (v e) m else m) m0 es)) \<and>
         map_of (foldl (\<lambda>m e. if P e then map_push (kf e) (v e) m else m) m0 es) k =
           (if filter (\<lambda>e. P e \<and> kf e = k) es = [] then map_of m0 k
            else Some ((case map_of m0 k of None \<Rightarrow> [] | Some xs \<Rightarrow> xs)
                        @ map v (filter (\<lambda>e. P e \<and> kf e = k) es)))"
  using assms
proof (induction es arbitrary: m0)
  case Nil
  then show ?case by simp
next
  case (Cons e es)
  show ?case
  proof (cases "P e")
    case False
    then show ?thesis using Cons.IH [OF Cons.prems] by simp
  next
    case True
    have s: "sorted_wrt (<) (map fst (map_push (kf e) (v e) m0))"
      using Cons.prems by (rule sorted_map_push)
    show ?thesis
      using Cons.IH [OF s] True
      by (auto simp: map_of_map_push [OF Cons.prems] split: option.splits)
  qed
qed

lemma grouped_entries:
  fixes P :: "'e \<Rightarrow> bool" and kf :: "'e \<Rightarrow> string" and v :: "'e \<Rightarrow> 'a"
  defines "gs \<equiv> \<lambda>es. foldl (\<lambda>m e. if P e then map_push (kf e) (v e) m else m) [] es"
  shows "distinct (map fst (gs es))"
    and "(k, xs) \<in> set (gs es) \<longleftrightarrow>
           xs = map v (filter (\<lambda>e. P e \<and> kf e = k) es) \<and> xs \<noteq> []"
proof -
  have g: "sorted_wrt (<) (map fst (gs es))"
    "map_of (gs es) k = (if filter (\<lambda>e. P e \<and> kf e = k) es = [] then None
            else Some (map v (filter (\<lambda>e. P e \<and> kf e = k) es)))"
    using grouped [of "[]" P kf v es k] by (simp_all add: gs_def)
  show d: "distinct (map fst (gs es))"
    using g(1) by (simp add: strict_sorted_iff)
  show "(k, xs) \<in> set (gs es) \<longleftrightarrow>
           xs = map v (filter (\<lambda>e. P e \<and> kf e = k) es) \<and> xs \<noteq> []"
    using map_of_eq_Some_iff [OF d, of k xs] g(2) by (auto split: if_splits)
qed

lemma needMap_alt:
  "needMap insts =
     foldl (\<lambda>m e. if 0 < snd (snd e)
                  then map_push (req_isbn (request_at insts (fst e) (fst (snd e)))) e m else m)
       [] (pending_items insts)"
proof -
  have "(\<lambda>m e. case e of (i, j, need) \<Rightarrow>
              if need > 0 then map_push (req_isbn (request_at insts i j)) (i, j, need) m else m)
      = (\<lambda>m e. if 0 < snd (snd e)
                  then map_push (req_isbn (request_at insts (fst e) (fst (snd e)))) e m else m)"
    by (auto simp: fun_eq_iff)
  then show ?thesis
    unfolding needMap_def by (rule arg_cong [where f = "\<lambda>f. foldl f [] (pending_items insts)"])
qed


lemma needMap_entries:
  "distinct (map fst (needMap insts))"
  "(k, xs) \<in> set (needMap insts) \<longleftrightarrow> xs = needs_for insts k \<and> xs \<noteq> []"
  unfolding needMap_alt needs_for_def
  using grouped_entries(1) [where P = "\<lambda>e. 0 < snd (snd e)"
      and kf = "\<lambda>e. req_isbn (request_at insts (fst e) (fst (snd e)))" and v = "\<lambda>e. e"
      and es = "pending_items insts"]
    grouped_entries(2) [where P = "\<lambda>e. 0 < snd (snd e)"
      and kf = "\<lambda>e. req_isbn (request_at insts (fst e) (fst (snd e)))" and v = "\<lambda>e. e"
      and es = "pending_items insts" and k = k and xs = xs]
  by simp_all


section \<open>Serving one group\<close>

text \<open>A loop over a group whose body is the guarded shared block, with amounts that
  together do not exceed the stock: each request of the group receives what
  \<open>allocateBooks\<close> hands out for its amount, and the stock goes down by the sum.\<close>

lemma granted_le: "granted a \<le> max 0 a"
  by (simp add: granted_def)

lemma granted_nonneg: "0 \<le> granted a"
  by (simp add: granted_def)

lemma grant_step_grants: "grants clk (\<lambda>b q. b = isbn \<and> q = p) w (grant_step clk isbn p a w)"
  by (cases p) (auto simp: grant_step_def intro: grants_none grants_one)

lemma grant_step_effect:
  assumes "valid_at w p" and "0 < a \<longrightarrow> a \<le> avail_of w isbn"
  shows "avail_of (grant_step clk isbn p a w) isbn = avail_of w isbn - granted a"
    and "quantityFulfilled (request_of (grant_step clk isbn p a w) p)
           = quantityFulfilled (request_of w p) + granted a"
proof -
  have ok: "fst (allocateBooks isbn a (fst w)) \<longleftrightarrow> 0 < a \<and> a < 1000000"
    using assms(2) by (auto simp: allocateBooks_success_iff avail_of_def)
  show "avail_of (grant_step clk isbn p a w) isbn = avail_of w isbn - granted a"
    by (simp add: grant_step_def ai_avail ok granted_def)
  show "quantityFulfilled (request_of (grant_step clk isbn p a w) p)
           = quantityFulfilled (request_of w p) + granted a"
    using assms(1)
    by (simp add: grant_step_def request_of_def valid_at_def ai_request ok granted_def)
qed

lemma grants_request_of_other:
  assumes "grants clk allowed w w'" and "\<forall>b. \<not> allowed b p"
  shows "request_of w' p = request_of w p"
  using grants_request_other [OF assms(1), of "fst p" "snd p"] assms(2)
  by (simp add: request_of_def)

lemma grants_valid_at: "grants clk allowed w w' \<Longrightarrow> valid_at w' p = valid_at w p"
  by (simp add: valid_at_def grants_valid_pos)

lemma group_fold_grants:
  assumes f: "\<And>w e. f w e = grant_step clk isbn (pos e) (h e (request_of w (pos e))) w"
  shows "grants clk (\<lambda>b p. b = isbn \<and> p \<in> pos ` set es) w (foldl f w es)"
proof (induction es arbitrary: w)
  case Nil
  then show ?case by (simp add: grants_none)
next
  case (Cons e es)
  have "grants clk (\<lambda>b p. b = isbn \<and> p = pos e) w (f w e)"
    unfolding f by (rule grant_step_grants)
  then have 1: "grants clk (\<lambda>b p. b = isbn \<and> p \<in> pos ` set (e # es)) w (f w e)"
    by (rule grants_mono) simp
  have "grants clk (\<lambda>b p. b = isbn \<and> p \<in> pos ` set es) (f w e) (foldl f (f w e) es)"
    by (rule Cons.IH)
  then have 2: "grants clk (\<lambda>b p. b = isbn \<and> p \<in> pos ` set (e # es)) (f w e) (foldl f (f w e) es)"
    by (rule grants_mono) simp
  from grants_trans [OF 2 1] show ?case by simp
qed

lemma group_fold:
  fixes pos :: "'e \<Rightarrow> nat \<times> nat" and h :: "'e \<Rightarrow> BookRequest \<Rightarrow> int"
  assumes f: "\<And>w e. f w e = grant_step clk isbn (pos e) (h e (request_of w (pos e))) w"
  shows "distinct (map pos es) \<Longrightarrow> \<forall>e \<in> set es. valid_at w (pos e) \<Longrightarrow>
     (\<Sum>e\<leftarrow>es. max 0 (h e (request_of w (pos e)))) \<le> avail_of w isbn \<Longrightarrow>
     avail_of (foldl f w es) isbn
       = avail_of w isbn - (\<Sum>e\<leftarrow>es. granted (h e (request_of w (pos e)))) \<and>
     (\<forall>e \<in> set es. quantityFulfilled (request_of (foldl f w es) (pos e))
        = quantityFulfilled (request_of w (pos e)) + granted (h e (request_of w (pos e))))"
proof (induction es arbitrary: w)
  case Nil
  then show ?case by simp
next
  case (Cons e es)
  let ?a = "h e (request_of w (pos e))"
  let ?w1 = "f w e"
  have w1: "?w1 = grant_step clk isbn (pos e) ?a w" by (rule f)
  have g1: "grants clk (\<lambda>b p. b = isbn \<and> p = pos e) w ?w1"
    unfolding w1 by (rule grant_step_grants)
  have notin: "pos e \<notin> pos ` set es" and d: "distinct (map pos es)"
    using Cons.prems(1) by simp_all
  have same: "request_of ?w1 (pos e') = request_of w (pos e')" if "e' \<in> set es" for e'
  proof -
    have "pos e' \<noteq> pos e" using that notin by (metis imageI)
    then show ?thesis using g1 by (intro grants_request_of_other [where allowed = "\<lambda>b p. b = isbn \<and> p = pos e"]) auto
  qed
  have valid1: "\<forall>e' \<in> set es. valid_at ?w1 (pos e')"
    using Cons.prems(2) grants_valid_at [OF g1] by simp
  have sum_nonneg: "0 \<le> (\<Sum>e\<leftarrow>es. max 0 (h e (request_of w (pos e))))"
    by (rule sum_list_nonneg) auto
  have a_le: "0 < ?a \<longrightarrow> ?a \<le> avail_of w isbn"
    using Cons.prems(3) sum_nonneg by auto
  have ve: "valid_at w (pos e)" using Cons.prems(2) by simp
  have av1: "avail_of ?w1 isbn = avail_of w isbn - granted ?a"
    and qf1: "quantityFulfilled (request_of ?w1 (pos e)) = quantityFulfilled (request_of w (pos e)) + granted ?a"
    unfolding w1 using grant_step_effect [OF ve a_le] by simp_all
  have m1: "map (\<lambda>e. max 0 (h e (request_of ?w1 (pos e)))) es
      = map (\<lambda>e. max 0 (h e (request_of w (pos e)))) es"
    by (rule map_cong) (simp_all add: same)
  have m2: "map (\<lambda>e. granted (h e (request_of ?w1 (pos e)))) es
      = map (\<lambda>e. granted (h e (request_of w (pos e)))) es"
    by (rule map_cong) (simp_all add: same)
  have "(\<Sum>e\<leftarrow>es. max 0 (h e (request_of ?w1 (pos e)))) \<le> avail_of ?w1 isbn"
    using Cons.prems(3) granted_le [of ?a] by (simp add: m1 av1)
  from Cons.IH [OF d valid1 this]
  have ih: "avail_of (foldl f ?w1 es) isbn
       = avail_of ?w1 isbn - (\<Sum>e\<leftarrow>es. granted (h e (request_of w (pos e))))"
    "\<forall>e' \<in> set es. quantityFulfilled (request_of (foldl f ?w1 es) (pos e'))
        = quantityFulfilled (request_of w (pos e')) + granted (h e' (request_of w (pos e')))"
    by (simp_all add: m2 same)
  have "request_of (foldl f ?w1 es) (pos e) = request_of ?w1 (pos e)"
    using group_fold_grants [of f clk isbn pos h es ?w1, OF f] notin
    by (intro grants_request_of_other [where allowed = "\<lambda>b p. b = isbn \<and> p \<in> pos ` set es"]) auto
  then have "quantityFulfilled (request_of (foldl f ?w1 es) (pos e))
      = quantityFulfilled (request_of w (pos e)) + granted ?a"
    using qf1 by simp
  then show ?case using ih av1 by simp
qed

text \<open>The groups of other ISBNs touch neither the stock of this one nor its requests.\<close>

lemma groups_grants:
  assumes G: "\<And>w k xs. grants clk (\<lambda>b p. b = k \<and> p \<in> pos ` set xs) w (G w (k, xs))"
  shows "grants clk (\<lambda>b p. \<exists>g \<in> set gs. b = fst g \<and> p \<in> pos ` set (snd g)) w (foldl G w gs)"
proof (induction gs arbitrary: w)
  case Nil
  then show ?case by (simp add: grants_none)
next
  case (Cons g gs)
  have "grants clk (\<lambda>b p. b = fst g \<and> p \<in> pos ` set (snd g)) w (G w g)"
    using G [of "fst g" "snd g" w] by simp
  then have 1: "grants clk (\<lambda>b p. \<exists>g' \<in> set (g # gs). b = fst g' \<and> p \<in> pos ` set (snd g')) w (G w g)"
    by (rule grants_mono) simp
  have "grants clk (\<lambda>b p. \<exists>g' \<in> set gs. b = fst g' \<and> p \<in> pos ` set (snd g')) (G w g) (foldl G (G w g) gs)"
    by (rule Cons.IH)
  then have 2: "grants clk (\<lambda>b p. \<exists>g' \<in> set (g # gs). b = fst g' \<and> p \<in> pos ` set (snd g'))
      (G w g) (foldl G (G w g) gs)"
    by (rule grants_mono) auto
  from grants_trans [OF 2 1] show ?case by simp
qed

lemma isolate_group:
  assumes G: "\<And>w k xs. grants clk (\<lambda>b p. b = k \<and> p \<in> pos ` set xs) w (G w (k, xs))"
    and dk: "distinct (map fst gs)"
    and dp: "distinct (map pos (concat (map snd gs)))"
    and mem: "(isbn, xs) \<in> set gs"
  shows "\<exists>w1. grants clk (\<lambda>b p. b \<noteq> isbn \<and> p \<notin> pos ` set xs) w w1 \<and>
              grants clk (\<lambda>b p. b \<noteq> isbn \<and> p \<notin> pos ` set xs) (G w1 (isbn, xs)) (foldl G w gs)"
proof -
  obtain gs1 gs2 where gs: "gs = gs1 @ (isbn, xs) # gs2" using mem by (meson split_list)
  have "distinct (map fst gs1 @ isbn # map fst gs2)" using dk unfolding gs by simp
  then have "isbn \<notin> fst ` set gs1" and "isbn \<notin> fst ` set gs2" by simp_all
  then have k1: "\<forall>g \<in> set gs1. fst g \<noteq> isbn" and k2: "\<forall>g \<in> set gs2. fst g \<noteq> isbn"
    by blast+
  have "distinct (map pos (concat (map snd gs1)) @ map pos xs @ map pos (concat (map snd gs2)))"
    using dp unfolding gs by simp
  then have i1: "pos ` set (concat (map snd gs1)) \<inter> pos ` set xs = {}"
    and i2: "pos ` set xs \<inter> pos ` set (concat (map snd gs2)) = {}"
    by (simp_all add: Int_Un_distrib Int_Un_distrib2)
  have "\<forall>g \<in> set gs1. set (snd g) \<subseteq> set (concat (map snd gs1))"
    and "\<forall>g \<in> set gs2. set (snd g) \<subseteq> set (concat (map snd gs2))"
    by auto
  then have p1: "\<forall>g \<in> set gs1. pos ` set (snd g) \<inter> pos ` set xs = {}"
    and p2: "\<forall>g \<in> set gs2. pos ` set (snd g) \<inter> pos ` set xs = {}"
    using i1 i2 by blast+
  let ?w1 = "foldl G w gs1"
  have "grants clk (\<lambda>b p. \<exists>g \<in> set gs1. b = fst g \<and> p \<in> pos ` set (snd g)) w ?w1"
    using G by (rule groups_grants)
  then have a: "grants clk (\<lambda>b p. b \<noteq> isbn \<and> p \<notin> pos ` set xs) w ?w1"
    by (rule grants_mono) (use k1 p1 in blast)
  have "grants clk (\<lambda>b p. \<exists>g \<in> set gs2. b = fst g \<and> p \<in> pos ` set (snd g))
      (G ?w1 (isbn, xs)) (foldl G (G ?w1 (isbn, xs)) gs2)"
    using G by (rule groups_grants)
  then have b: "grants clk (\<lambda>b p. b \<noteq> isbn \<and> p \<notin> pos ` set xs)
      (G ?w1 (isbn, xs)) (foldl G (G ?w1 (isbn, xs)) gs2)"
    by (rule grants_mono) (use k2 p2 in blast)
  have "foldl G w gs = foldl G (G ?w1 (isbn, xs)) gs2" by (simp add: gs)
  then have "grants clk (\<lambda>b p. b \<noteq> isbn \<and> p \<notin> pos ` set xs) w ?w1 \<and>
      grants clk (\<lambda>b p. b \<noteq> isbn \<and> p \<notin> pos ` set xs) (G ?w1 (isbn, xs)) (foldl G w gs)"
    using a b by simp
  then show ?thesis by (rule exI)
qed

lemma absent_group:
  assumes G: "\<And>w k xs. grants clk (\<lambda>b p. b = k \<and> p \<in> pos ` set xs) w (G w (k, xs))"
    and "isbn \<notin> fst ` set gs"
  shows "grants clk (\<lambda>b p. b \<noteq> isbn) w (foldl G w gs)"
proof -
  have "grants clk (\<lambda>b p. \<exists>g \<in> set gs. b = fst g \<and> p \<in> pos ` set (snd g)) w (foldl G w gs)"
    using G by (rule groups_grants)
  then show ?thesis by (rule grants_mono) (use assms(2) in auto)
qed

lemma outside_same:
  assumes "grants clk (\<lambda>b p. b \<noteq> isbn \<and> p \<notin> S) w w'"
  shows "avail_of w' isbn = avail_of w isbn"
    and "p \<in> S \<Longrightarrow> request_of w' p = request_of w p"
    and "valid_at w' p = valid_at w p"
  using grants_avail_other [OF assms, of isbn] grants_request_of_other [OF assms, of p]
    grants_valid_at [OF assms, of p]
  by auto

section \<open>The proportional strategy\<close>

lemma c_div_nonneg: "0 \<le> a \<Longrightarrow> 0 < b \<Longrightarrow> c_div a b = a div b"
  by (cases "a = 0") (simp_all add: c_div_def)

lemma div_add_le:
  fixes a b T :: int
  assumes "0 < T"
  shows "a div T + b div T \<le> (a + b) div T"
proof -
  have "0 \<le> (a mod T + b mod T) div T"
    using assms by (simp add: pos_imp_zdiv_nonneg_iff)
  moreover have "(a + b) div T = a div T + b div T + (a mod T + b mod T) div T"
    by (rule div_add1_eq)
  ultimately show ?thesis by linarith
qed

lemma sum_div_le:
  fixes T :: int
  assumes "0 < T"
  shows "(\<Sum>x\<leftarrow>xs. f x div T) \<le> (\<Sum>x\<leftarrow>xs. f x) div T"
proof (induction xs)
  case Nil
  then show ?case by simp
next
  case (Cons x xs)
  have "f x div T + (\<Sum>x\<leftarrow>xs. f x div T) \<le> f x div T + (\<Sum>x\<leftarrow>xs. f x) div T"
    using Cons by simp
  also have "\<dots> \<le> (f x + (\<Sum>x\<leftarrow>xs. f x)) div T" using assms by (rule div_add_le)
  finally show ?case by simp
qed

lemma shares_le:
  fixes A :: int
  assumes "0 < (\<Sum>e\<leftarrow>xs. n e)"
  shows "(\<Sum>e\<leftarrow>xs. share A (\<Sum>e\<leftarrow>xs. n e) (n e)) \<le> A"
proof -
  let ?T = "\<Sum>e\<leftarrow>xs. n e"
  have "(\<Sum>e\<leftarrow>xs. share A ?T (n e)) \<le> (\<Sum>e\<leftarrow>xs. (A * n e) div ?T)"
    by (rule sum_list_mono) (simp add: share_def)
  also have "\<dots> \<le> (\<Sum>e\<leftarrow>xs. A * n e) div ?T" using assms by (rule sum_div_le)
  also have "(\<Sum>e\<leftarrow>xs. A * n e) = A * ?T" by (simp add: sum_list_const_mult)
  also have "(A * ?T) div ?T = A" using assms by simp
  finally show ?thesis .
qed

lemma member_le_sum:
  fixes n :: "'e \<Rightarrow> int"
  assumes "\<forall>e \<in> set xs. 0 < n e" and "e \<in> set xs"
  shows "n e \<le> (\<Sum>e\<leftarrow>xs. n e)"
  using assms
proof (induction xs)
  case Nil
  then show ?case by simp
next
  case (Cons x xs)
  have "0 \<le> (\<Sum>e\<leftarrow>xs. n e)" using Cons.prems(1) by (intro sum_list_nonneg) auto
  then show ?case using Cons by (cases "e = x") (auto simp: add_increasing)
qed

lemma sum_pos:
  fixes n :: "'e \<Rightarrow> int"
  assumes "\<forall>e \<in> set xs. 0 < n e" and "xs \<noteq> []"
  shows "0 < (\<Sum>e\<leftarrow>xs. n e)"
proof -
  obtain e where "e \<in> set xs" using assms(2) by (cases xs) auto
  then have "n e \<le> (\<Sum>e\<leftarrow>xs. n e)" and "0 < n e" using assms(1) member_le_sum by auto
  then show ?thesis by simp
qed

lemma wrapped_sum:
  fixes xs :: "item list"
  assumes "\<forall>e \<in> set xs. 0 < snd (snd e)" and "0 \<le> a"
    and "a + (\<Sum>e\<leftarrow>xs. snd (snd e)) \<le> INT_MAX"
  shows "foldl (\<lambda>sum t. wrap_int (sum + snd (snd t))) a xs = a + (\<Sum>e\<leftarrow>xs. snd (snd e))"
  using assms
proof (induction xs arbitrary: a)
  case Nil
  then show ?case by simp
next
  case (Cons x xs)
  have x: "0 < snd (snd x)" using Cons.prems(1) by simp
  have "0 \<le> (\<Sum>e\<leftarrow>xs. snd (snd e))" using Cons.prems(1) by (intro sum_list_nonneg) auto
  then have le: "a + snd (snd x) \<le> INT_MAX" using Cons.prems(3) by simp
  have "INT_MIN \<le> a + snd (snd x)" using x Cons.prems(2) by (simp add: INT_MIN_def)
  then have w: "wrap_int (a + snd (snd x)) = a + snd (snd x)" using le by (rule wrap_int_id)
  have "foldl (\<lambda>sum t. wrap_int (sum + snd (snd t))) (a + snd (snd x)) xs
      = (a + snd (snd x)) + (\<Sum>e\<leftarrow>xs. snd (snd e))"
    using Cons.prems x by (intro Cons.IH) simp_all
  then show ?case using w by simp
qed

lemma need_serve_grant_step:
  "0 < T \<Longrightarrow>
   need_serve clk k A T w e =
     grant_step clk k (key e) (min (snd (snd e)) (c_div (wrap_int (A * snd (snd e))) T)) w"
  by (cases e) (simp add: need_serve_def grant_step_def key_def Let_def)

lemma need_serve_no_need: "\<not> 0 < T \<Longrightarrow> need_serve clk k A T w e = w"
  by (cases e) (simp add: need_serve_def Let_def)

lemma foldl_id: "(\<And>w e. f w e = w) \<Longrightarrow> foldl f w xs = w"
  by (induction xs arbitrary: w) simp_all

lemma sum_list_all_zero: "\<forall>x \<in> set xs. f x = (0::int) \<Longrightarrow> (\<Sum>x\<leftarrow>xs. f x) = 0"
  by (induction xs) simp_all

lemma need_group_eq:
  "need_group clk w (k, xs) =
     (if avail_of w k \<le> 0 then w
      else foldl (need_serve clk k (avail_of w k)
             (foldl (\<lambda>sum t. wrap_int (sum + snd (snd t))) 0 xs)) w xs)"
  by (cases w) (simp add: need_group_def avail_of_def Let_def)

lemma need_group_grants:
  "grants clk (\<lambda>b p. b = k \<and> p \<in> key ` set xs) w (need_group clk w (k, xs))"
proof (cases "avail_of w k \<le> 0")
  case True
  then show ?thesis by (simp add: need_group_eq grants_none)
next
  case False
  let ?A = "avail_of w k" and ?T = "foldl (\<lambda>sum t. wrap_int (sum + snd (snd t))) 0 xs"
  have "grants clk (\<lambda>b p. b = k \<and> p \<in> key ` set xs) w (foldl (need_serve clk k ?A ?T) w xs)"
  proof (cases "0 < ?T")
    case True
    show ?thesis
      by (rule group_fold_grants
          [where h = "\<lambda>e r. min (snd (snd e)) (c_div (wrap_int (?A * snd (snd e))) ?T)"])
         (rule need_serve_grant_step [OF True])
  next
    case False
    then have "foldl (need_serve clk k ?A ?T) w xs = w"
      by (intro foldl_id need_serve_no_need)
    then show ?thesis by (simp add: grants_none)
  qed
  then show ?thesis using False by (simp add: need_group_eq)
qed

lemma share_nonpos:
  assumes "A \<le> 0" and "0 < n" and "0 < T"
  shows "granted (share A T n) = 0"
proof -
  have "A * n \<le> 0" using assms by (simp add: mult_le_0_iff)
  then have "(A * n) div T \<le> 0" using assms(3) by (simp add: div_nonpos_pos_le0)
  then show ?thesis by (simp add: granted_def share_def)
qed

lemma need_group_effect:
  fixes isbn :: string and w :: world and xs :: "item list"
  assumes d: "distinct (map key xs)"
    and v: "\<forall>e \<in> set xs. valid_at w (key e)"
    and n: "\<forall>e \<in> set xs. 0 < snd (snd e)"
    and A_def: "A = avail_of w isbn" and T_def: "T = (\<Sum>e\<leftarrow>xs. snd (snd e))"
    and Tmax: "T \<le> INT_MAX" and prod: "\<forall>e \<in> set xs. A * snd (snd e) \<le> INT_MAX"
  shows "avail_of (need_group clk w (isbn, xs)) isbn
           = A - (\<Sum>e\<leftarrow>xs. granted (share A T (snd (snd e))))"
    and "\<forall>e \<in> set xs. quantityFulfilled (request_of (need_group clk w (isbn, xs)) (key e))
           = quantityFulfilled (request_of w (key e)) + granted (share A T (snd (snd e)))"
proof -
  have T: "0 < T" if "xs \<noteq> []" using sum_pos [OF n that] by (simp add: T_def)
  have both: "avail_of (need_group clk w (isbn, xs)) isbn
           = A - (\<Sum>e\<leftarrow>xs. granted (share A T (snd (snd e)))) \<and>
     (\<forall>e \<in> set xs. quantityFulfilled (request_of (need_group clk w (isbn, xs)) (key e))
           = quantityFulfilled (request_of w (key e)) + granted (share A T (snd (snd e))))"
  proof (cases "A \<le> 0")
    case True
    have z: "granted (share A T (snd (snd e))) = 0" if "e \<in> set xs" for e
    proof -
      have "xs \<noteq> []" using that by auto
      then show ?thesis using share_nonpos [OF True _ T] n that by simp
    qed
    then have "(\<Sum>e\<leftarrow>xs. granted (share A T (snd (snd e)))) = 0"
      by (intro sum_list_all_zero) simp
    moreover have "need_group clk w (isbn, xs) = w" using True by (simp add: need_group_eq A_def)
    ultimately show ?thesis using z by (simp add: A_def)
  next
    case False
    show ?thesis
    proof (cases "xs = []")
      case True
      then show ?thesis using False by (simp add: need_group_eq A_def)
    next
      case ne: False
      have Tpos: "0 < T" using T ne by simp
      let ?h = "\<lambda>e (r::BookRequest). min (snd (snd e)) (c_div (wrap_int (A * snd (snd e))) T)"
      have h: "?h e r = share A T (snd (snd e))" if "e \<in> set xs" for e r
      proof -
        have "0 < snd (snd e)" using n that by blast
        then have p: "0 \<le> A * snd (snd e)" using False by (simp add: zero_le_mult_iff)
        then have "INT_MIN \<le> A * snd (snd e)" by (simp add: INT_MIN_def)
        moreover have "A * snd (snd e) \<le> INT_MAX" using prod that by blast
        ultimately have "wrap_int (A * snd (snd e)) = A * snd (snd e)" by (rule wrap_int_id)
        then show ?thesis using p Tpos by (simp add: share_def c_div_nonneg)
      qed
      have nonneg: "0 \<le> share A T (snd (snd e))" if "e \<in> set xs" for e
      proof -
        have "0 < snd (snd e)" using n that by blast
        then have "0 \<le> A * snd (snd e)" using False by (simp add: zero_le_mult_iff)
        then have "0 \<le> (A * snd (snd e)) div T" using Tpos by (simp add: pos_imp_zdiv_nonneg_iff)
        moreover have "0 < snd (snd e)" using n that by blast
        ultimately show ?thesis by (simp add: share_def)
      qed
      have "map (\<lambda>e. max 0 (?h e (request_of w (key e)))) xs = map (\<lambda>e. share A T (snd (snd e))) xs"
      proof (rule map_cong [OF refl])
        fix e assume "e \<in> set xs"
        then show "max 0 (?h e (request_of w (key e))) = share A T (snd (snd e))"
          using h [of e] nonneg [of e] by (simp only: max_def split: if_splits) simp
      qed
      then have "(\<Sum>e\<leftarrow>xs. max 0 (?h e (request_of w (key e)))) = (\<Sum>e\<leftarrow>xs. share A T (snd (snd e)))"
        by (rule arg_cong)
      also have "\<dots> \<le> A" using shares_le [where xs = xs and n = "\<lambda>e. snd (snd e)" and A = A] Tpos by (simp add: T_def)
      finally have pre: "(\<Sum>e\<leftarrow>xs. max 0 (?h e (request_of w (key e)))) \<le> avail_of w isbn"
        by (simp add: A_def)
      have gm: "map (\<lambda>e. granted (?h e (request_of w (key e)))) xs
          = map (\<lambda>e. granted (share A T (snd (snd e)))) xs"
      proof (rule map_cong [OF refl])
        fix e assume "e \<in> set xs"
        then show "granted (?h e (request_of w (key e))) = granted (share A T (snd (snd e)))"
          using h [of e] by (rule_tac arg_cong [where f = granted]) simp
      qed
      have "foldl (\<lambda>sum t. wrap_int (sum + snd (snd t))) 0 xs = 0 + (\<Sum>e\<leftarrow>xs. snd (snd e))"
        using n Tmax by (intro wrapped_sum) (simp_all add: T_def)
      then have eq: "need_group clk w (isbn, xs) = foldl (need_serve clk isbn A T) w xs"
        using False by (simp add: need_group_eq A_def T_def)
      have r: "avail_of (foldl (need_serve clk isbn A T) w xs) isbn
           = avail_of w isbn - sum_list (map (\<lambda>e. granted (?h e (request_of w (key e)))) xs) \<and>
         (\<forall>e \<in> set xs. quantityFulfilled (request_of (foldl (need_serve clk isbn A T) w xs) (key e))
            = quantityFulfilled (request_of w (key e)) + granted (?h e (request_of w (key e))))"
        by (rule group_fold [where f = "need_serve clk isbn A T" and clk = clk and isbn = isbn
          and pos = key and h = ?h and es = xs and w = w,
          OF need_serve_grant_step [OF Tpos] d v pre])
      have "avail_of (foldl (need_serve clk isbn A T) w xs) isbn
           = A - sum_list (map (\<lambda>e. granted (?h e (request_of w (key e)))) xs)"
        using r by (simp only: A_def [symmetric])
      then have r1: "avail_of (need_group clk w (isbn, xs)) isbn
           = A - (\<Sum>e\<leftarrow>xs. granted (share A T (snd (snd e))))"
        by (simp only: eq gm)
      have r2: "quantityFulfilled (request_of (need_group clk w (isbn, xs)) (key e))
           = quantityFulfilled (request_of w (key e)) + granted (share A T (snd (snd e)))"
        if "e \<in> set xs" for e
      proof -
        have "quantityFulfilled (request_of (need_group clk w (isbn, xs)) (key e))
            = quantityFulfilled (request_of w (key e)) + granted (?h e (request_of w (key e)))"
          using r that unfolding eq by blast
        moreover have "?h e (request_of w (key e)) = share A T (snd (snd e))"
          using that by (rule h)
        ultimately show ?thesis by (simp only:)
      qed
      show ?thesis using r1 r2 by blast
    qed
  qed
  from both show "avail_of (need_group clk w (isbn, xs)) isbn
           = A - (\<Sum>e\<leftarrow>xs. granted (share A T (snd (snd e))))" by simp
  from both show "\<forall>e \<in> set xs. quantityFulfilled (request_of (need_group clk w (isbn, xs)) (key e))
           = quantityFulfilled (request_of w (key e)) + granted (share A T (snd (snd e)))" by simp
qed

lemma distinct_needs_for: "distinct (map key (needs_for insts isbn))"
  unfolding needs_for_def using distinct_pending_items by (rule distinct_map_filter)

lemma needs_for_iff:
  "e \<in> set (needs_for insts isbn) \<longleftrightarrow>
     (\<exists>i j. e = (i, j, getRemainingQuantity (request_at insts i j)) \<and> valid_pos insts i j \<and>
            is_pending (request_at insts i j) \<and> 0 < getRemainingQuantity (request_at insts i j) \<and>
            req_isbn (request_at insts i j) = isbn)"
  by (auto simp: needs_for_def set_pending_items)

lemma distinct_needMap_items: "distinct (map key (concat (map snd (needMap insts))))"
proof -
  have "mset (map key (concat (map snd (needMap insts))))
      = mset (map key (filter (\<lambda>e. snd (snd e) > 0) (pending_items insts)))"
    using mset_needMap [of insts] by (metis mset_map)
  moreover have "distinct (map key (filter (\<lambda>e. snd (snd e) > 0) (pending_items insts)))"
    using distinct_pending_items by (rule distinct_map_filter)
  ultimately show ?thesis by (metis mset_eq_imp_distinct_iff)
qed

lemma NeedBased_effect:
  fixes isbn :: string and insts :: "Institution list"
  assumes A: "A = getAvailableQuantity iv isbn" and T: "T = total_need insts isbn"
    and Tmax: "T \<le> INT_MAX"
    and prod: "\<forall>e \<in> set (needs_for insts isbn). A * snd (snd e) \<le> INT_MAX"
  shows "avail_of (NeedBased_distribute clk (iv, insts, loans)) isbn
           = A - (\<Sum>e\<leftarrow>needs_for insts isbn. granted (share A T (snd (snd e))))"
    and "\<forall>e \<in> set (needs_for insts isbn).
           quantityFulfilled (request_of (NeedBased_distribute clk (iv, insts, loans)) (key e))
             = quantityFulfilled (request_of (iv, insts, loans) (key e))
               + granted (share A T (snd (snd e)))"
proof -
  let ?w0 = "(iv, insts, loans)"
  let ?xs = "needs_for insts isbn"
  let ?G = "need_group clk"
  let ?w' = "foldl ?G ?w0 (needMap insts)"
  have w': "NeedBased_distribute clk ?w0 = ?w'" by (simp add: NeedBased_distribute_def)
  have both: "avail_of ?w' isbn = A - (\<Sum>e\<leftarrow>?xs. granted (share A T (snd (snd e)))) \<and>
    (\<forall>e \<in> set ?xs. quantityFulfilled (request_of ?w' (key e))
        = quantityFulfilled (request_of ?w0 (key e)) + granted (share A T (snd (snd e))))"
  proof (cases "?xs = []")
    case True
    then have "isbn \<notin> fst ` set (needMap insts)"
      using needMap_entries(2) [of isbn _ insts] by (auto simp: image_iff)
    then have "grants clk (\<lambda>b p. b \<noteq> isbn) ?w0 ?w'"
      by (rule absent_group [where pos = key, OF need_group_grants])
    then have "avail_of ?w' isbn = avail_of ?w0 isbn"
      by (rule grants_avail_other) simp
    then show ?thesis using True A by (simp add: avail_of_def)
  next
    case False
    then have mem: "(isbn, ?xs) \<in> set (needMap insts)" by (simp add: needMap_entries(2))
    obtain w1 where a: "grants clk (\<lambda>b p. b \<noteq> isbn \<and> p \<notin> key ` set ?xs) ?w0 w1"
      and b: "grants clk (\<lambda>b p. b \<noteq> isbn \<and> p \<notin> key ` set ?xs) (?G w1 (isbn, ?xs)) ?w'"
      using isolate_group [where G = ?G and pos = key and clk = clk and w = ?w0,
          OF need_group_grants needMap_entries(1) distinct_needMap_items mem]
      by blast
    have A1: "A = avail_of w1 isbn" using outside_same(1) [OF a] A by (simp add: avail_of_def)
    have v0: "valid_at ?w0 (key e)" if "e \<in> set ?xs" for e
      using that by (auto simp: needs_for_iff valid_at_def key_def insts_of_def)
    have v: "\<forall>e \<in> set ?xs. valid_at w1 (key e)"
      using v0 outside_same(3) [OF a] by simp
    have n: "\<forall>e \<in> set ?xs. 0 < snd (snd e)" by (auto simp: needs_for_iff)
    have T1: "T = (\<Sum>e\<leftarrow>?xs. snd (snd e))" using T by (simp add: total_need_def)
    note eff = need_group_effect [OF distinct_needs_for v n A1 T1 Tmax prod, of clk]
    have "avail_of ?w' isbn = avail_of (?G w1 (isbn, ?xs)) isbn"
      using b by (rule outside_same(1))
    then have r1: "avail_of ?w' isbn = A - (\<Sum>e\<leftarrow>?xs. granted (share A T (snd (snd e))))"
      using eff(1) by simp
    have r2: "quantityFulfilled (request_of ?w' (key e))
        = quantityFulfilled (request_of ?w0 (key e)) + granted (share A T (snd (snd e)))"
      if "e \<in> set ?xs" for e
    proof -
      have k: "key e \<in> key ` set ?xs" using that by (rule imageI)
      have "request_of ?w' (key e) = request_of (?G w1 (isbn, ?xs)) (key e)"
        using b k by (rule outside_same(2))
      moreover have "request_of w1 (key e) = request_of ?w0 (key e)"
        using a k by (rule outside_same(2))
      ultimately show ?thesis using eff(2) that by simp
    qed
    show ?thesis using r1 r2 by blast
  qed
  show "avail_of (NeedBased_distribute clk (iv, insts, loans)) isbn
           = A - (\<Sum>e\<leftarrow>needs_for insts isbn. granted (share A T (snd (snd e))))"
    using both unfolding w' by blast
  show "\<forall>e \<in> set (needs_for insts isbn).
           quantityFulfilled (request_of (NeedBased_distribute clk (iv, insts, loans)) (key e))
             = quantityFulfilled (request_of (iv, insts, loans) (key e))
               + granted (share A T (snd (snd e)))"
    using both unfolding w' by blast
qed

lemma share_in_range:
  assumes "0 \<le> A" and "0 < n" and "n \<le> T" and "A * n \<le> INT_MAX"
  shows "granted (share A T n) = share A T n"
proof -
  have T: "0 < T" using assms by simp
  have 1: "0 \<le> (A * n) div T" using assms T by (simp add: pos_imp_zdiv_nonneg_iff)
  have "(A * n) div T \<le> (A * T) div T"
    using assms T by (intro zdiv_mono1 mult_left_mono) simp_all
  then have 2: "(A * n) div T \<le> A" using T by simp
  have 3: "share A T n < 1000000"
  proof (rule ccontr)
    assume "\<not> share A T n < 1000000"
    then have "1000000 \<le> n" and "1000000 \<le> A" using 2 by (simp_all add: share_def)
    then have "1000000 * 1000000 \<le> A * n" by (intro mult_mono) simp_all
    then show False using assms(4) by (simp add: INT_MAX_def)
  qed
  have "0 \<le> share A T n" using 1 assms(2) by (simp add: share_def)
  then show ?thesis using 3 by (simp add: granted_def)
qed

section \<open>The equal strategy\<close>










section \<open>Proportional and equal shares\<close>

lemma proportional_twice_run:
  "fulfilment (system_after pq clk proportional_twice_calls) =
     [[(1, PARTIALLY_FULFILLED), (1, PARTIALLY_FULFILLED)], [(2, PARTIALLY_FULFILLED)]] \<and>
   getAvailableQuantity (centralInventory (system_after pq clk proportional_twice_calls)) isbn1 = 1"
  unfolding proportional_twice_calls_def
  by (simp add: run_defs need_defs)

lemma proportional_overflow_run:
  "fulfilment (system_after pq clk proportional_overflow_calls) =
     [[(7050, PARTIALLY_FULFILLED)], [(7050, PARTIALLY_FULFILLED)]] \<and>
   getAvailableQuantity (centralInventory (system_after pq clk proportional_overflow_calls)) isbn1 = 85900"
  unfolding proportional_overflow_calls_def
  by (simp add: run_defs need_defs)

lemma needs_before_cycle: "needs_for (institutions before_cycle) isbn1 = [(0, 0, 60), (1, 0, 60)]"
  by (simp only: needs_for_def pending_before_cycle) (simp add: request_at_def before_cycle_world)

text \<open>
  Claim C7, as amended. Let \<open>A\<close> be the available quantity of an ISBN, not negative, and
  \<open>T\<close> the total of the remaining quantities of the pending requests for it that still
  need copies (\<open>needs_for\<close> lists them, as the cycle collects them), and let \<open>T\<close> and
  every product \<open>A * remaining\<close> be at most \<open>INT_MAX\<close>, so that the sum and the products
  of the code do not wrap. Then one cycle of the proportional strategy adds to every
  such request, and not to every institution, exactly
  \<open>min(remaining, floor(A * remaining / T))\<close>; the stock of the ISBN goes down by the
  sum of these shares, which is at most \<open>A\<close>, so what the rounding leaves is not handed
  out in the cycle. And with 90 copies, X needing 60 and Y needing 30, X receives 60
  and Y receives 30.
\<close>

theorem need_proportional_per_request:
  "(A = getAvailableQuantity iv isbn \<and> T = total_need insts isbn \<and> 0 \<le> A \<and> T \<le> INT_MAX \<and>
    (\<forall>e \<in> set (needs_for insts isbn). A * snd (snd e) \<le> INT_MAX) \<longrightarrow>
      (\<forall>i j. valid_pos insts i j \<and> is_pending (request_at insts i j) \<and>
             req_isbn (request_at insts i j) = isbn \<and>
             0 < getRemainingQuantity (request_at insts i j) \<longrightarrow>
         quantityFulfilled (request_at (insts_of (NeedBased_distribute clk (iv, insts, loans))) i j)
           = quantityFulfilled (request_at insts i j)
             + share A T (getRemainingQuantity (request_at insts i j))) \<and>
      avail_of (NeedBased_distribute clk (iv, insts, loans)) isbn
        = A - (\<Sum>e\<leftarrow>needs_for insts isbn. share A T (snd (snd e))) \<and>
      (\<Sum>e\<leftarrow>needs_for insts isbn. share A T (snd (snd e))) \<le> A) \<and>
   fulfilment (system_after pq clk proportional_calls) = [[(60, FULFILLED)], [(30, FULFILLED)]] \<and>
   getAvailableQuantity (centralInventory (system_after pq clk proportional_calls)) isbn1 = 0"
proof -
  let ?xs = "needs_for insts isbn" and ?w' = "NeedBased_distribute clk (iv, insts, loans)"
  have gen: "(\<forall>i j. valid_pos insts i j \<and> is_pending (request_at insts i j) \<and>
             req_isbn (request_at insts i j) = isbn \<and>
             0 < getRemainingQuantity (request_at insts i j) \<longrightarrow>
         quantityFulfilled (request_at (insts_of ?w') i j)
           = quantityFulfilled (request_at insts i j)
             + share A T (getRemainingQuantity (request_at insts i j))) \<and>
      avail_of ?w' isbn = A - (\<Sum>e\<leftarrow>?xs. share A T (snd (snd e))) \<and>
      (\<Sum>e\<leftarrow>?xs. share A T (snd (snd e))) \<le> A"
    if h: "A = getAvailableQuantity iv isbn \<and> T = total_need insts isbn \<and> 0 \<le> A \<and> T \<le> INT_MAX \<and>
      (\<forall>e \<in> set ?xs. A * snd (snd e) \<le> INT_MAX)"
  proof -
    from h have A: "A = getAvailableQuantity iv isbn" and T: "T = total_need insts isbn"
      and A0: "0 \<le> A" and Tmax: "T \<le> INT_MAX"
      and prod: "\<forall>e \<in> set ?xs. A * snd (snd e) \<le> INT_MAX" by blast+
    note eff = NeedBased_effect [where clk = clk and loans = loans, OF A T Tmax prod]
    have n: "\<forall>e \<in> set ?xs. 0 < snd (snd e)" by (auto simp: needs_for_iff)
    have le: "snd (snd e) \<le> T" if "e \<in> set ?xs" for e
      using member_le_sum [where n = "\<lambda>e. snd (snd e)", OF n that] T by (simp add: total_need_def)
    have g: "granted (share A T (snd (snd e))) = share A T (snd (snd e))" if "e \<in> set ?xs" for e
    proof -
      have "0 < snd (snd e)" and "A * snd (snd e) \<le> INT_MAX" using n prod that by blast+
      then show ?thesis using A0 le [OF that] by (intro share_in_range)
    qed
    have sum: "(\<Sum>e\<leftarrow>?xs. granted (share A T (snd (snd e)))) = (\<Sum>e\<leftarrow>?xs. share A T (snd (snd e)))"
      by (rule arg_cong [where f = sum_list], rule map_cong [OF refl]) (rule g)
    have s_le: "(\<Sum>e\<leftarrow>?xs. share A T (snd (snd e))) \<le> A"
    proof (cases "?xs = []")
      case True
      then show ?thesis using A0 by simp
    next
      case False
      have "0 < (\<Sum>e\<leftarrow>?xs. snd (snd e))" using n False by (rule sum_pos)
      then show ?thesis
        using shares_le [where xs = ?xs and n = "\<lambda>e. snd (snd e)" and A = A] T
        by (simp add: total_need_def)
    qed
    have pos: "quantityFulfilled (request_at (insts_of ?w') i j)
           = quantityFulfilled (request_at insts i j)
             + share A T (getRemainingQuantity (request_at insts i j))"
      if c: "valid_pos insts i j \<and> is_pending (request_at insts i j) \<and>
             req_isbn (request_at insts i j) = isbn \<and>
             0 < getRemainingQuantity (request_at insts i j)" for i j
    proof -
      let ?e = "(i, j, getRemainingQuantity (request_at insts i j))"
      have m: "?e \<in> set ?xs" using c by (auto simp: needs_for_iff)
      with eff(2) have "quantityFulfilled (request_of ?w' (key ?e))
          = quantityFulfilled (request_of (iv, insts, loans) (key ?e))
            + granted (share A T (snd (snd ?e)))" by blast
      then show ?thesis using g [OF m] by (simp add: request_of_def key_def insts_of_def)
    qed
    have av: "avail_of ?w' isbn = A - (\<Sum>e\<leftarrow>?xs. share A T (snd (snd e)))"
      using eff(1) sum by simp
    show ?thesis using pos av s_le by blast
  qed
  show ?thesis using gen proportional_run [of pq clk] by blast
qed

text \<open>Claim C7, witness: 100 copies, X and Y need 60 each and receive 50 each.\<close>

theorem need_proportional_per_request_witness:
  "quantityFulfilled (request_at (insts_of (NeedBased_distribute still_clock
      (centralInventory before_cycle, institutions before_cycle, loanManager before_cycle))) 0 0) = 50 \<and>
   quantityFulfilled (request_at (insts_of (NeedBased_distribute still_clock
      (centralInventory before_cycle, institutions before_cycle, loanManager before_cycle))) 1 0) = 50 \<and>
   avail_of (NeedBased_distribute still_clock
      (centralInventory before_cycle, institutions before_cycle, loanManager before_cycle)) isbn1 = 0 \<and>
   fulfilment (system_after first_come_order still_clock proportional_calls)
      = [[(60, FULFILLED)], [(30, FULFILLED)]]"
proof -
  note t = need_proportional_per_request [where A = 100 and T = 120 and iv = "centralInventory before_cycle"
      and isbn = isbn1 and insts = "institutions before_cycle" and clk = still_clock
      and loans = "loanManager before_cycle" and pq = first_come_order]
  have hyp: "100 = getAvailableQuantity (centralInventory before_cycle) isbn1 \<and>
      120 = total_need (institutions before_cycle) isbn1 \<and> (0::int) \<le> 100 \<and> 120 \<le> INT_MAX \<and>
      (\<forall>e \<in> set (needs_for (institutions before_cycle) isbn1). 100 * snd (snd e) \<le> INT_MAX)"
    by (simp add: before_cycle_world(2) total_need_def needs_before_cycle INT_MAX_def)
  have c0: "valid_pos (institutions before_cycle) 0 0 \<and> is_pending (request_at (institutions before_cycle) 0 0) \<and>
             req_isbn (request_at (institutions before_cycle) 0 0) = isbn1 \<and>
             0 < getRemainingQuantity (request_at (institutions before_cycle) 0 0)"
    and c1: "valid_pos (institutions before_cycle) 1 0 \<and> is_pending (request_at (institutions before_cycle) 1 0) \<and>
             req_isbn (request_at (institutions before_cycle) 1 0) = isbn1 \<and>
             0 < getRemainingQuantity (request_at (institutions before_cycle) 1 0)"
    by (simp_all add: before_cycle_world(1) valid_pos_def is_pending_def request_at_def
        getRemainingQuantity_def)
  have r0: "quantityFulfilled (request_at (institutions before_cycle) 0 0) = 0
      \<and> getRemainingQuantity (request_at (institutions before_cycle) 0 0) = 60"
    and r1: "quantityFulfilled (request_at (institutions before_cycle) (Suc 0) 0) = 0
      \<and> getRemainingQuantity (request_at (institutions before_cycle) (Suc 0) 0) = 60"
    by (simp_all add: before_cycle_world(1) request_at_def getRemainingQuantity_def)
  from t hyp have all: "\<forall>i j. valid_pos (institutions before_cycle) i j \<and>
        is_pending (request_at (institutions before_cycle) i j) \<and>
        req_isbn (request_at (institutions before_cycle) i j) = isbn1 \<and>
        0 < getRemainingQuantity (request_at (institutions before_cycle) i j) \<longrightarrow>
      quantityFulfilled (request_at (insts_of (NeedBased_distribute still_clock
          (centralInventory before_cycle, institutions before_cycle, loanManager before_cycle))) i j)
        = quantityFulfilled (request_at (institutions before_cycle) i j)
          + share 100 120 (getRemainingQuantity (request_at (institutions before_cycle) i j))"
    and av: "avail_of (NeedBased_distribute still_clock
          (centralInventory before_cycle, institutions before_cycle, loanManager before_cycle)) isbn1
        = 100 - (\<Sum>e\<leftarrow>needs_for (institutions before_cycle) isbn1. share 100 120 (snd (snd e)))"
    and run: "fulfilment (system_after first_come_order still_clock proportional_calls)
        = [[(60, FULFILLED)], [(30, FULFILLED)]]"
    by blast+
  from all c0 have "quantityFulfilled (request_at (insts_of (NeedBased_distribute still_clock
          (centralInventory before_cycle, institutions before_cycle, loanManager before_cycle))) 0 0)
        = quantityFulfilled (request_at (institutions before_cycle) 0 0)
          + share 100 120 (getRemainingQuantity (request_at (institutions before_cycle) 0 0))"
    by blast
  moreover from all c1 have "quantityFulfilled (request_at (insts_of (NeedBased_distribute still_clock
          (centralInventory before_cycle, institutions before_cycle, loanManager before_cycle))) 1 0)
        = quantityFulfilled (request_at (institutions before_cycle) 1 0)
          + share 100 120 (getRemainingQuantity (request_at (institutions before_cycle) 1 0))"
    by blast
  ultimately show ?thesis using av run
    by (simp add: r0 r1 share_def needs_before_cycle)
qed

text \<open>
  Claim C7 as stated, for institutions and for all quantities, fails. With 5 copies,
  two requests of X for 3 each and one of Y for 4, the total need is 10: every
  request of X receives \<open>floor(5 * 3 / 10) = 1\<close>, so X receives 2, where the formula for
  X's need of 6 gives 3. And with 100000 copies and two requests for 50000, the
  product \<open>100000 * 50000\<close> is stored as 705032704 in an \<open>int\<close>: each request receives
  7050, where the formula gives 50000.
\<close>

theorem need_proportional_per_institution_fails:
  "fulfilment (system_after first_come_order still_clock proportional_twice_calls) =
     [[(1, PARTIALLY_FULFILLED), (1, PARTIALLY_FULFILLED)], [(2, PARTIALLY_FULFILLED)]] \<and>
   share 5 10 (3 + 3) = 3 \<and>
   fulfilment (system_after first_come_order still_clock proportional_overflow_calls) =
     [[(7050, PARTIALLY_FULFILLED)], [(7050, PARTIALLY_FULFILLED)]] \<and>
   share 100000 (50000 + 50000) 50000 = 50000"
  using proportional_twice_run [of first_come_order still_clock]
    proportional_overflow_run [of first_come_order still_clock]
  by (simp add: share_def)




end
